theory Spec2Isabelle
  imports Complex_Main
begin

section \<open>The dining-philosophers monitor of main.py\<close>

text \<open>
  The development embeds the class \<open>Monitor\<close>, the thread body \<open>philosopher\<close> and the
  restart branch of \<open>main\<close>. Every function that runs under the monitor's lock is a
  function from monitor values to monitor values. A blocking call is cut at its calls of
  \<open>condition.wait\<close>: what the other threads do to the monitor while the caller is suspended
  is an argument of the model, a function on monitor values, one for each wait.
  Readings of \<open>time.time()\<close> are real numbers and readings of \<open>time.strftime\<close> are strings;
  both are arguments as well.
\<close>

subsection \<open>Constants and data\<close>

definition NUM_PHILOSOPHERS :: nat where
  "NUM_PHILOSOPHERS = 5"

definition TIMEOUT :: real where
  "TIMEOUT = 5"

text \<open>
  The four state constants. Actor and fork indices are natural numbers, as the threads get
  them from \<open>range(NUM_PHILOSOPHERS)\<close>; an index beyond the end of a list raises
  \<open>IndexError\<close>.
\<close>

datatype pstate = THINKING | HUNGRY | EATING | DEADLOCK

datatype error = IndexError

text \<open>
  The fields of a \<open>Monitor\<close> object. \<open>condition\<close> stands for the condition variable: the
  number of \<open>notify_all\<close> broadcasts issued on it so far. \<open>log_q\<close> is the deque \<open>log\<close>.
\<close>

record Monitor =
  state :: "pstate list"
  forks_in_use :: "nat option list"
  condition :: nat
  log_q :: "string list"
  running :: bool

definition Monitor_init :: Monitor where
  "Monitor_init =
     \<lparr>state = replicate NUM_PHILOSOPHERS THINKING,
      forks_in_use = replicate NUM_PHILOSOPHERS None,
      condition = 0,
      log_q = [],
      running = True\<rparr>"

subsection \<open>Formatting and the bounded log\<close>

text \<open>Decimal rendering of a non-negative integer, as an f-string renders it.\<close>

fun str :: "nat \<Rightarrow> string" where
  "str n =
     (if n < 10 then [''0123456789'' ! n]
      else str (n div 10) @ [''0123456789'' ! (n mod 10)])"

declare str.simps [simp del]

text \<open>
  \<open>deque(maxlen=20).append\<close>: the new entry goes to the right end, and a full deque
  drops entries from the left end.
\<close>

definition deque_append :: "'a list \<Rightarrow> 'a \<Rightarrow> 'a list" where
  "deque_append q x = (let q' = q @ [x] in drop (length q' - 20) q')"

text \<open>\<open>ts\<close> is the reading of \<open>time.strftime('%H:%M:%S')\<close>.\<close>

definition log_event :: "string \<Rightarrow> string \<Rightarrow> Monitor \<Rightarrow> Monitor" where
  "log_event ts message m = m\<lparr>log_q := deque_append (log_q m) (ts @ '': '' @ message)\<rparr>"

subsection \<open>The monitor operations\<close>

definition test :: "string \<Rightarrow> nat \<Rightarrow> Monitor \<Rightarrow> error + Monitor" where
  "test ts i m =
     (let left = (i + NUM_PHILOSOPHERS - 1) mod NUM_PHILOSOPHERS;
          right = i
      in if \<not> i < length (state m) then Inl IndexError
         else if state m ! i \<noteq> HUNGRY then Inr m
         else if \<not> left < length (forks_in_use m) then Inl IndexError
         else if forks_in_use m ! left \<noteq> None then Inr m
         else if \<not> right < length (forks_in_use m) then Inl IndexError
         else if forks_in_use m ! right \<noteq> None then Inr m
         else Inr (log_event ts
                (''P'' @ str i @ '' eating (F'' @ str left @ '', F'' @ str right @ '')'')
                (m\<lparr>state := (state m)[i := EATING],
                   forks_in_use := (forks_in_use m)[left := Some i, right := Some i],
                   condition := Suc (condition m)\<rparr>)))"

text \<open>
  One pass of the \<open>while\<close> loop of \<open>pickup_forks\<close> that reaches \<open>condition.wait\<close>:
  the clock reading \<open>now\<close>, the stamp the log would get on a timeout, and what the other
  threads do to the monitor while this thread is suspended in the wait.
\<close>

datatype tick = Tick (tick_now: real) (tick_stamp: string) (tick_others: "Monitor \<Rightarrow> Monitor")

text \<open>
  The loop of \<open>pickup_forks\<close> (lines 82 to 89). The result is the returned boolean and the
  monitor; the boolean is \<open>None\<close> when the schedule ends with the caller still suspended.
\<close>

fun wait_loop :: "nat \<Rightarrow> real \<Rightarrow> tick list \<Rightarrow> Monitor \<Rightarrow> error + (bool option \<times> Monitor)" where
  "wait_loop i start_time [] m =
     (if \<not> i < length (state m) then Inl IndexError
      else if state m ! i \<noteq> EATING \<and> running m then Inr (None, m)
      else Inr (Some (running m \<and> state m ! i = EATING), m))"
| "wait_loop i start_time (t # sched) m =
     (if \<not> i < length (state m) then Inl IndexError
      else if state m ! i \<noteq> EATING \<and> running m then
        (let remaining = TIMEOUT - (tick_now t - start_time)
         in if remaining \<le> 0 then
              Inr (Some False,
                   log_event (tick_stamp t) (''P'' @ str i @ '' timed out!'')
                     (m\<lparr>state := (state m)[i := DEADLOCK]\<rparr>))
            else wait_loop i start_time sched (tick_others t m))
      else Inr (Some (running m \<and> state m ! i = EATING), m))"

definition pickup_forks ::
    "string \<Rightarrow> string \<Rightarrow> nat \<Rightarrow> real \<Rightarrow> tick list \<Rightarrow> Monitor \<Rightarrow> error + (bool option \<times> Monitor)" where
  "pickup_forks ts_hungry ts_eating i start_time sched m =
     (if \<not> running m then Inr (Some False, m)
      else if \<not> i < length (state m) then Inl IndexError
      else case test ts_eating i
                  (log_event ts_hungry (''P'' @ str i @ '' hungry'')
                     (m\<lparr>state := (state m)[i := HUNGRY]\<rparr>)) of
             Inl e \<Rightarrow> Inl e
           | Inr m1 \<Rightarrow> wait_loop i start_time sched m1)"

definition putdown_forks :: "string \<Rightarrow> string \<Rightarrow> string \<Rightarrow> nat \<Rightarrow> Monitor \<Rightarrow> error + Monitor" where
  "putdown_forks ts_stopped ts_left ts_right i m =
     (let left = (i + NUM_PHILOSOPHERS - 1) mod NUM_PHILOSOPHERS;
          right = i
      in if \<not> i < length (state m) then Inl IndexError
         else if \<not> left < length (forks_in_use m) then Inl IndexError
         else if \<not> right < length (forks_in_use m) then Inl IndexError
         else case test ts_left
                     (nat ((int i - 1 + int NUM_PHILOSOPHERS) mod int NUM_PHILOSOPHERS))
                     (log_event ts_stopped (''P'' @ str i @ '' stopped eating'')
                        (m\<lparr>state := (state m)[i := THINKING],
                           forks_in_use := (forks_in_use m)[left := None, right := None]\<rparr>)) of
                Inl e \<Rightarrow> Inl e
              | Inr m1 \<Rightarrow> test ts_right ((i + 1) mod NUM_PHILOSOPHERS) m1)"

definition stop :: "Monitor \<Rightarrow> Monitor" where
  "stop m = m\<lparr>running := False, condition := Suc (condition m)\<rparr>"

text \<open>
  The restart branch of the button handler in \<open>main\<close> (lines 196 to 199): the flag is set,
  then the loop over \<open>range(NUM_PHILOSOPHERS)\<close> clears the deadlocked entries. The threads
  it spawns afterwards are not part of the monitor's data.
\<close>

fun restart_loop :: "nat list \<Rightarrow> pstate list \<Rightarrow> error + pstate list" where
  "restart_loop [] st = Inr st"
| "restart_loop (i # is) st =
     (if \<not> i < length st then Inl IndexError
      else restart_loop is (if st ! i = DEADLOCK then st[i := THINKING] else st))"

definition restart :: "Monitor \<Rightarrow> error + Monitor" where
  "restart m =
     (case restart_loop [0..<NUM_PHILOSOPHERS] (state m) of
        Inl e \<Rightarrow> Inl e
      | Inr st \<Rightarrow> Inr (m\<lparr>running := True, state := st\<rparr>))"

subsection \<open>The thread body\<close>

text \<open>
  One pass of the loop of \<open>philosopher\<close>: the stamp of the "thinking" entry, what the other
  threads do during the first \<open>time.sleep\<close>, the arguments of the call of \<open>pickup_forks\<close>,
  what the other threads do during the second \<open>time.sleep\<close>, and the stamps of the call of
  \<open>putdown_forks\<close>.
\<close>

record round =
  rd_thinking :: string
  rd_think_sleep :: "Monitor \<Rightarrow> Monitor"
  rd_hungry :: string
  rd_eating :: string
  rd_start :: real
  rd_sched :: "tick list"
  rd_eat_sleep :: "Monitor \<Rightarrow> Monitor"
  rd_stopped :: string
  rd_left :: string
  rd_right :: string

text \<open>
  The result of the thread body: the values returned by its calls of \<open>pickup_forks\<close>, in
  order; whether the loop has been left; the monitor. The loop has not been left when the
  rounds end with the flag still set, or when a call of \<open>pickup_forks\<close> stays suspended.
\<close>

definition returned :: "bool \<Rightarrow> error + (bool list \<times> bool \<times> Monitor) \<Rightarrow> error + (bool list \<times> bool \<times> Monitor)" where
  "returned b res =
     (case res of Inl e \<Rightarrow> Inl e | Inr (bs, left_loop, m) \<Rightarrow> Inr (b # bs, left_loop, m))"

fun philosopher :: "nat \<Rightarrow> round list \<Rightarrow> Monitor \<Rightarrow> error + (bool list \<times> bool \<times> Monitor)" where
  "philosopher id' [] m = Inr ([], \<not> running m, m)"
| "philosopher id' (r # rs) m =
     (if \<not> running m then Inr ([], True, m)
      else
        let m1 = rd_think_sleep r
                   (log_event (rd_thinking r) (''P'' @ str id' @ '' thinking'') m)
        in if \<not> running m1 then Inr ([], True, m1)
           else case pickup_forks (rd_hungry r) (rd_eating r) id' (rd_start r) (rd_sched r) m1 of
                  Inl e \<Rightarrow> Inl e
                | Inr (None, m2) \<Rightarrow> Inr ([], False, m2)
                | Inr (Some True, m2) \<Rightarrow>
                    (case putdown_forks (rd_stopped r) (rd_left r) (rd_right r) id'
                            (rd_eat_sleep r m2) of
                       Inl e \<Rightarrow> Inl e
                     | Inr m3 \<Rightarrow> returned True (philosopher id' rs m3))
                | Inr (Some False, m2) \<Rightarrow> returned False (philosopher id' rs m2))"

subsection \<open>Sequences of lock-protected sections\<close>

text \<open>
  The sections of code that run under the lock without a wait in between. \<open>Request\<close> is a
  call of \<open>pickup_forks\<close> up to its first wait (or its return); \<open>Expire\<close> is a suspended
  caller of \<open>pickup_forks\<close> that wakes up with its deadline passed; \<open>Release\<close> is a call of
  \<open>putdown_forks\<close>, taken only while the caller is eating; \<open>Shutdown\<close> is \<open>stop\<close>;
  \<open>Restart\<close> is the restart branch, taken as one step although \<open>main\<close> runs it
  without the lock. \<open>Expire\<close> is allowed for every actor, whether or not one of its
  threads is suspended, so the sequences cover more than the threads can do.
\<close>

datatype event =
    Request string string nat
  | Expire string nat
  | Release string string string nat
  | Shutdown
  | Restart

fun fire :: "event \<Rightarrow> Monitor \<Rightarrow> Monitor option" where
  "fire (Request ts_hungry ts_eating i) m =
     (case pickup_forks ts_hungry ts_eating i 0 [] m of
        Inl e \<Rightarrow> None
      | Inr (r, m') \<Rightarrow> Some m')"
| "fire (Expire ts i) m =
     (case wait_loop i 0 [Tick TIMEOUT ts (\<lambda>x. x)] m of
        Inl e \<Rightarrow> None
      | Inr (r, m') \<Rightarrow> Some m')"
| "fire (Release ts_stopped ts_left ts_right i) m =
     (if i < length (state m) \<and> state m ! i = EATING then
        (case putdown_forks ts_stopped ts_left ts_right i m of
           Inl e \<Rightarrow> None
         | Inr m' \<Rightarrow> Some m')
      else None)"
| "fire Shutdown m = Some (stop m)"
| "fire Restart m = (case restart m of Inl e \<Rightarrow> None | Inr m' \<Rightarrow> Some m')"

fun run :: "event list \<Rightarrow> Monitor \<Rightarrow> Monitor option" where
  "run [] m = Some m"
| "run (e # es) m = (case fire e m of None \<Rightarrow> None | Some m' \<Rightarrow> run es m')"

subsection \<open>Notions used by the statements\<close>

text \<open>The two arrays have the length the constructor gives them.\<close>

definition well_formed :: "Monitor \<Rightarrow> bool" where
  "well_formed m \<longleftrightarrow>
     length (state m) = NUM_PHILOSOPHERS \<and> length (forks_in_use m) = NUM_PHILOSOPHERS"

text \<open>The index \<open>left\<close> of \<open>test\<close> and \<open>putdown_forks\<close>, and the right-hand neighbour.\<close>

definition left_of :: "nat \<Rightarrow> nat" where
  "left_of i = (i + NUM_PHILOSOPHERS - 1) mod NUM_PHILOSOPHERS"

definition right_nb :: "nat \<Rightarrow> nat" where
  "right_nb i = (i + 1) mod NUM_PHILOSOPHERS"

text \<open>The condition under which \<open>test\<close> grants.\<close>

definition grantable :: "nat \<Rightarrow> Monitor \<Rightarrow> bool" where
  "grantable i m \<longleftrightarrow>
     state m ! i = HUNGRY \<and> forks_in_use m ! left_of i = None \<and> forks_in_use m ! i = None"

text \<open>Whoever is eating is recorded as the user of both of its forks.\<close>

definition eating_holds :: "pstate list \<Rightarrow> nat option list \<Rightarrow> bool" where
  "eating_holds st fk \<longleftrightarrow>
     length st = NUM_PHILOSOPHERS \<and> length fk = NUM_PHILOSOPHERS \<and>
     (\<forall>i<NUM_PHILOSOPHERS. st ! i = EATING \<longrightarrow> fk ! left_of i = Some i \<and> fk ! i = Some i)"

text \<open>Whoever is recorded as the user of a fork is one of the two actors next to it.\<close>

definition owners_adjacent :: "nat option list \<Rightarrow> bool" where
  "owners_adjacent fk \<longleftrightarrow>
     (\<forall>f<NUM_PHILOSOPHERS. \<forall>a. fk ! f = Some a \<longrightarrow>
        a < NUM_PHILOSOPHERS \<and> (f = a \<or> f = left_of a))"

text \<open>The entry \<open>e\<close> is among the last \<open>k\<close> entries of the log \<open>q\<close>.\<close>

definition recent :: "nat \<Rightarrow> 'a \<Rightarrow> 'a list \<Rightarrow> bool" where
  "recent k e q \<longleftrightarrow> e \<in> set (take k (rev q))"

text \<open>
  A schedule in which no other thread touches the monitor: the caller only wakes up, at
  the given clock readings.
\<close>

definition alone :: "(real \<times> string) list \<Rightarrow> tick list" where
  "alone wakes = map (\<lambda>(now, ts). Tick now ts (\<lambda>m. m)) wakes"

text \<open>
  The passes of the loop of \<open>pickup_forks\<close> listed in \<open>pre\<close> all end in a wait: at each of
  them the caller is not eating, the flag is set and the deadline has not passed.
\<close>

fun still_waiting :: "nat \<Rightarrow> real \<Rightarrow> tick list \<Rightarrow> Monitor \<Rightarrow> bool" where
  "still_waiting i start_time [] m = True"
| "still_waiting i start_time (t # pre) m =
     (i < length (state m) \<and> state m ! i \<noteq> EATING \<and> running m
      \<and> tick_now t - start_time < TIMEOUT
      \<and> still_waiting i start_time pre (tick_others t m))"

text \<open>The monitor the caller finds when it wakes up from the last of these waits.\<close>

fun after_waits :: "tick list \<Rightarrow> Monitor \<Rightarrow> Monitor" where
  "after_waits [] m = m"
| "after_waits (t # pre) m = after_waits pre (tick_others t m)"

text \<open>
  What other threads do to the monitor during a sleep or a wait, given as a sequence of
  lock-protected sections; a section that cannot run is skipped together with the rest.
\<close>

definition interleaved :: "event list \<Rightarrow> Monitor \<Rightarrow> Monitor" where
  "interleaved es m = (case run es m of None \<Rightarrow> m | Some m' \<Rightarrow> m')"

text \<open>The monitor after actor 0 has been granted its forks.\<close>

definition actor0_eats :: Monitor where
  "actor0_eats =
     \<lparr>state = [EATING, THINKING, THINKING, THINKING, THINKING],
      forks_in_use = [Some 0, None, None, None, Some 0], condition = 1,
      log_q = [''09:00:01: P0 hungry'', ''09:00:01: P0 eating (F4, F0)''], running = True\<rparr>"

text \<open>
  A pass of the loop in which the request starts at time 4, finds the clock at 4 on its
  first pass and at 9 on its second, and nobody else touches the monitor.
\<close>

definition round_timed_out :: round where
  "round_timed_out =
     \<lparr>rd_thinking = ''09:00:02'', rd_think_sleep = id,
      rd_hungry = ''09:00:04'', rd_eating = ''09:00:04'', rd_start = 4,
      rd_sched = [Tick 4 ''09:00:04'' id, Tick 9 ''09:00:09'' id],
      rd_eat_sleep = id,
      rd_stopped = ''09:00:11'', rd_left = ''09:00:11'', rd_right = ''09:00:11''\<rparr>"

text \<open>A pass of the loop during whose first sleep actor 0 puts its forks down.\<close>

definition round_granted :: round where
  "round_granted =
     \<lparr>rd_thinking = ''09:00:09'',
      rd_think_sleep = interleaved [Release ''09:00:10'' ''09:00:10'' ''09:00:10'' 0],
      rd_hungry = ''09:00:11'', rd_eating = ''09:00:11'', rd_start = 11,
      rd_sched = [],
      rd_eat_sleep = id,
      rd_stopped = ''09:00:13'', rd_left = ''09:00:13'', rd_right = ''09:00:13''\<rparr>"

text \<open>A pass of the loop whose request is observed right after its entry section.\<close>

definition round_waiting :: round where
  "round_waiting =
     \<lparr>rd_thinking = ''09:00:09'', rd_think_sleep = id,
      rd_hungry = ''09:00:11'', rd_eating = ''09:00:11'', rd_start = 11,
      rd_sched = [],
      rd_eat_sleep = id,
      rd_stopped = ''09:00:13'', rd_left = ''09:00:13'', rd_right = ''09:00:13''\<rparr>"

text \<open>
  A pass of the loop in which the request starts at time 4 and finds the clock at 5 on its
  first pass; \<open>stop\<close> runs during the wait that follows.
\<close>

definition round_shutdown :: round where
  "round_shutdown =
     \<lparr>rd_thinking = ''09:00:02'', rd_think_sleep = id,
      rd_hungry = ''09:00:04'', rd_eating = ''09:00:04'', rd_start = 4,
      rd_sched = [Tick 5 ''09:00:05'' stop],
      rd_eat_sleep = id,
      rd_stopped = ''09:00:11'', rd_left = ''09:00:11'', rd_right = ''09:00:11''\<rparr>"

section \<open>Properties\<close>

subsection \<open>Indices on the ring\<close>

lemma below_five: "i < NUM_PHILOSOPHERS \<Longrightarrow> i = 0 \<or> i = 1 \<or> i = 2 \<or> i = 3 \<or> i = 4"
  unfolding NUM_PHILOSOPHERS_def by arith

lemma left_of_less: "left_of i < NUM_PHILOSOPHERS"
  by (simp add: left_of_def NUM_PHILOSOPHERS_def)

lemma right_nb_less: "right_nb i < NUM_PHILOSOPHERS"
  by (simp add: right_nb_def NUM_PHILOSOPHERS_def)

lemma left_of_neq: "i < NUM_PHILOSOPHERS \<Longrightarrow> left_of i \<noteq> i"
  by (drule below_five) (auto simp: left_of_def NUM_PHILOSOPHERS_def)

lemma left_of_inj:
  "i < NUM_PHILOSOPHERS \<Longrightarrow> j < NUM_PHILOSOPHERS \<Longrightarrow> left_of i = left_of j \<Longrightarrow> i = j"
  by (drule below_five, drule below_five) (auto simp: left_of_def NUM_PHILOSOPHERS_def)

lemma left_of_right_nb: "i < NUM_PHILOSOPHERS \<Longrightarrow> left_of (right_nb i) = i"
  by (drule below_five) (auto simp: left_of_def right_nb_def NUM_PHILOSOPHERS_def)


lemma right_nb_neq: "i < NUM_PHILOSOPHERS \<Longrightarrow> right_nb i \<noteq> i"
  by (drule below_five) (auto simp: right_nb_def NUM_PHILOSOPHERS_def)

lemma right_nb_neq_left_of: "i < NUM_PHILOSOPHERS \<Longrightarrow> right_nb i \<noteq> left_of i"
  by (drule below_five) (auto simp: left_of_def right_nb_def NUM_PHILOSOPHERS_def)

lemma left_left_neq: "i < NUM_PHILOSOPHERS \<Longrightarrow> left_of (left_of i) \<noteq> i"
  by (drule below_five) (auto simp: left_of_def NUM_PHILOSOPHERS_def)

lemma left_left_neq_right: "i < NUM_PHILOSOPHERS \<Longrightarrow> left_of (left_of i) \<noteq> right_nb i"
  by (drule below_five) (auto simp: left_of_def right_nb_def NUM_PHILOSOPHERS_def)

lemma py_left:
  "i < NUM_PHILOSOPHERS \<Longrightarrow>
     nat ((int i - 1 + int NUM_PHILOSOPHERS) mod int NUM_PHILOSOPHERS) = left_of i"
  by (drule below_five) (auto simp: left_of_def NUM_PHILOSOPHERS_def)

subsection \<open>What \<open>test\<close> does on a well-formed monitor\<close>

lemma test_effect:
  assumes "well_formed m" "i < NUM_PHILOSOPHERS"
  shows "\<exists>m'. test ts i m = Inr m' \<and> well_formed m' \<and> running m' = running m
     \<and> state m' = (if grantable i m then (state m)[i := EATING] else state m)
     \<and> forks_in_use m' =
         (if grantable i m then (forks_in_use m)[left_of i := Some i, i := Some i]
          else forks_in_use m)
     \<and> condition m' = (if grantable i m then Suc (condition m) else condition m)"
proof (cases "grantable i m")
  case True
  with assms left_of_less[of i] show ?thesis
    by (simp add: test_def well_formed_def grantable_def left_of_def log_event_def Let_def)
next
  case False
  with assms left_of_less[of i] show ?thesis
    by (auto simp add: test_def well_formed_def grantable_def left_of_def Let_def)
qed

subsection \<open>Invariants of the state and ownership arrays\<close>

lemma eating_holdsD:
  "eating_holds st fk \<Longrightarrow> j < NUM_PHILOSOPHERS \<Longrightarrow> st ! j = EATING \<Longrightarrow>
     fk ! left_of j = Some j \<and> fk ! j = Some j"
  by (simp add: eating_holds_def)

lemma eating_holds_len:
  "eating_holds st fk \<Longrightarrow> length st = NUM_PHILOSOPHERS \<and> length fk = NUM_PHILOSOPHERS"
  by (simp add: eating_holds_def)

lemma eating_holds_grant:
  assumes inv: "eating_holds st fk" and i: "i < NUM_PHILOSOPHERS"
    and free: "fk ! left_of i = None" "fk ! i = None"
  shows "eating_holds (st[i := EATING]) (fk[left_of i := Some i, i := Some i])"
  unfolding eating_holds_def
proof (intro conjI allI impI)
  from inv show "length (st[i := EATING]) = NUM_PHILOSOPHERS"
    by (simp add: eating_holds_def)
  from inv show "length (fk[left_of i := Some i, i := Some i]) = NUM_PHILOSOPHERS"
    by (simp add: eating_holds_def)
next
  fix j assume j: "j < NUM_PHILOSOPHERS" and e: "st[i := EATING] ! j = EATING"
  note len = eating_holds_len[OF inv]
  show "fk[left_of i := Some i, i := Some i] ! left_of j = Some j"
  proof (cases "j = i")
    case True
    then show ?thesis using i len left_of_less[of i] left_of_neq[of i]
      by (simp add: nth_list_update)
  next
    case False
    with e have "st ! j = EATING" by simp
    from eating_holdsD[OF inv j this] free
    have "left_of j \<noteq> left_of i" "left_of j \<noteq> i" "fk ! left_of j = Some j" by auto
    then show ?thesis by simp
  qed
  show "fk[left_of i := Some i, i := Some i] ! j = Some j"
  proof (cases "j = i")
    case True
    then show ?thesis using i len by simp
  next
    case False
    with e have "st ! j = EATING" by simp
    from eating_holdsD[OF inv j this] free
    have "j \<noteq> left_of i" "fk ! j = Some j" by auto
    with False show ?thesis by simp
  qed
qed

lemma eating_holds_demote:
  assumes inv: "eating_holds st fk" and s: "s \<noteq> EATING"
  shows "eating_holds (st[i := s]) fk"
  unfolding eating_holds_def
proof (intro conjI allI impI)
  from inv show "length (st[i := s]) = NUM_PHILOSOPHERS" "length fk = NUM_PHILOSOPHERS"
    by (simp_all add: eating_holds_def)
next
  fix j assume j: "j < NUM_PHILOSOPHERS" and e: "st[i := s] ! j = EATING"
  note len = eating_holds_len[OF inv]
  from e s j len have "j \<noteq> i" by (auto simp: nth_list_update split: if_splits)
  with e have "st ! j = EATING" by simp
  from eating_holdsD[OF inv j this]
  show "fk ! left_of j = Some j" "fk ! j = Some j" by simp_all
qed

lemma eating_holds_free:
  assumes inv: "eating_holds st fk" and i: "i < NUM_PHILOSOPHERS" and ei: "st ! i = EATING"
  shows "eating_holds (st[i := THINKING]) (fk[left_of i := None, i := None])"
  unfolding eating_holds_def
proof (intro conjI allI impI)
  from inv show "length (st[i := THINKING]) = NUM_PHILOSOPHERS"
    "length (fk[left_of i := None, i := None]) = NUM_PHILOSOPHERS"
    by (simp_all add: eating_holds_def)
next
  fix j assume j: "j < NUM_PHILOSOPHERS" and e: "st[i := THINKING] ! j = EATING"
  note len = eating_holds_len[OF inv]
  from e j len have ji: "j \<noteq> i" by (auto simp: nth_list_update split: if_splits)
  with e have "st ! j = EATING" by simp
  from eating_holdsD[OF inv j this] eating_holdsD[OF inv i ei] ji
  have "left_of j \<noteq> left_of i" "left_of j \<noteq> i" "j \<noteq> left_of i"
       "fk ! left_of j = Some j" "fk ! j = Some j" by auto
  with ji show "fk[left_of i := None, i := None] ! left_of j = Some j"
    "fk[left_of i := None, i := None] ! j = Some j" by simp_all
qed

lemma owners_adjacentD:
  "owners_adjacent fk \<Longrightarrow> f < NUM_PHILOSOPHERS \<Longrightarrow> fk ! f = Some a \<Longrightarrow>
     a < NUM_PHILOSOPHERS \<and> (f = a \<or> f = left_of a)"
  by (simp add: owners_adjacent_def)

lemma owners_adjacent_grant:
  assumes inv: "owners_adjacent fk" and i: "i < NUM_PHILOSOPHERS"
    and len: "length fk = NUM_PHILOSOPHERS"
  shows "owners_adjacent (fk[left_of i := Some i, i := Some i])"
  unfolding owners_adjacent_def
proof (intro allI impI)
  fix f a
  assume f: "f < NUM_PHILOSOPHERS" and o: "fk[left_of i := Some i, i := Some i] ! f = Some a"
  show "a < NUM_PHILOSOPHERS \<and> (f = a \<or> f = left_of a)"
  proof (cases "f = i \<or> f = left_of i")
    case True
    with o i len left_of_less[of i] have "a = i"
      by (auto simp: nth_list_update split: if_splits)
    with True i show ?thesis by auto
  next
    case False
    with o have "fk ! f = Some a" by simp
    from owners_adjacentD[OF inv f this] show ?thesis .
  qed
qed

lemma owners_adjacent_free:
  assumes inv: "owners_adjacent fk" and i: "i < length fk" and j: "j < length fk"
  shows "owners_adjacent (fk[j := None, i := None])"
  unfolding owners_adjacent_def
proof (intro allI impI)
  fix f a
  assume f: "f < NUM_PHILOSOPHERS" and o: "fk[j := None, i := None] ! f = Some a"
  from o i j have "f \<noteq> i" "f \<noteq> j"
    by (auto simp: nth_list_update split: if_splits)
  with o have "fk ! f = Some a" by simp
  from owners_adjacentD[OF inv f this]
  show "a < NUM_PHILOSOPHERS \<and> (f = a \<or> f = left_of a)" .
qed

lemma eating_holds_mono:
  assumes inv: "eating_holds st fk" and len: "length st' = length st"
    and sub: "\<forall>j<NUM_PHILOSOPHERS. st' ! j = EATING \<longrightarrow> st ! j = EATING"
  shows "eating_holds st' fk"
  using assms by (simp add: eating_holds_def)

subsection \<open>The operations keep the invariants\<close>

lemma log_event_fields:
  "state (log_event ts msg m) = state m"
  "forks_in_use (log_event ts msg m) = forks_in_use m"
  "condition (log_event ts msg m) = condition m"
  "running (log_event ts msg m) = running m"
  by (simp_all add: log_event_def)

lemma test_keeps:
  assumes inv: "eating_holds (state m) (forks_in_use m)" and i: "i < NUM_PHILOSOPHERS"
  shows "\<exists>m'. test ts i m = Inr m' \<and> running m' = running m
     \<and> eating_holds (state m') (forks_in_use m')
     \<and> (owners_adjacent (forks_in_use m) \<longrightarrow> owners_adjacent (forks_in_use m'))"
proof -
  from inv have wf: "well_formed m"
    by (simp add: eating_holds_def well_formed_def)
  from test_effect[OF wf i, of ts] obtain m' where
    t: "test ts i m = Inr m'" and r: "running m' = running m"
    and st: "state m' = (if grantable i m then (state m)[i := EATING] else state m)"
    and fk: "forks_in_use m' =
         (if grantable i m then (forks_in_use m)[left_of i := Some i, i := Some i]
          else forks_in_use m)"
    by blast
  show ?thesis
  proof (cases "grantable i m")
    case True
    then have free: "forks_in_use m ! left_of i = None" "forks_in_use m ! i = None"
      by (simp_all add: grantable_def)
    from eating_holds_grant[OF inv i free] eating_holds_len[OF inv] owners_adjacent_grant[OF _ i]
      t r st fk True
    show ?thesis by simp
  next
    case False
    with inv t r st fk show ?thesis by simp
  qed
qed

lemma putdown_forks_steps:
  assumes wf: "well_formed m" and i: "i < NUM_PHILOSOPHERS"
  shows "\<exists>m1 m'.
     test ts_left (left_of i)
       (log_event ts_stopped (''P'' @ str i @ '' stopped eating'')
          (m\<lparr>state := (state m)[i := THINKING],
             forks_in_use := (forks_in_use m)[left_of i := None, i := None]\<rparr>)) = Inr m1
     \<and> test ts_right (right_nb i) m1 = Inr m'
     \<and> putdown_forks ts_stopped ts_left ts_right i m = Inr m'"
proof -
  let ?m0 = "log_event ts_stopped (''P'' @ str i @ '' stopped eating'')
          (m\<lparr>state := (state m)[i := THINKING],
             forks_in_use := (forks_in_use m)[left_of i := None, i := None]\<rparr>)"
  from wf have wf0: "well_formed ?m0"
    by (simp add: well_formed_def log_event_fields)
  from test_effect[OF wf0 left_of_less, of ts_left "i"] obtain m1 where
    t1: "test ts_left (left_of i) ?m0 = Inr m1" and wf1: "well_formed m1"
    by blast
  from test_effect[OF wf1 right_nb_less, of ts_right "i"] obtain m' where
    t2: "test ts_right (right_nb i) m1 = Inr m'"
    by blast
  have "putdown_forks ts_stopped ts_left ts_right i m = Inr m'"
    using wf i left_of_less[of i] t1 t2 py_left[OF i]
    by (simp add: putdown_forks_def Let_def well_formed_def left_of_def right_nb_def)
  with t1 t2 show ?thesis by blast
qed

lemma putdown_forks_keeps:
  assumes inv: "eating_holds (state m) (forks_in_use m)" and i: "i < NUM_PHILOSOPHERS"
    and e: "state m ! i = EATING"
  shows "\<exists>m'. putdown_forks ts_stopped ts_left ts_right i m = Inr m'
     \<and> running m' = running m
     \<and> eating_holds (state m') (forks_in_use m')
     \<and> (owners_adjacent (forks_in_use m) \<longrightarrow> owners_adjacent (forks_in_use m'))"
proof -
  let ?m0 = "log_event ts_stopped (''P'' @ str i @ '' stopped eating'')
          (m\<lparr>state := (state m)[i := THINKING],
             forks_in_use := (forks_in_use m)[left_of i := None, i := None]\<rparr>)"
  from inv have wf: "well_formed m"
    by (simp add: eating_holds_def well_formed_def)
  from putdown_forks_steps[OF wf i, of ts_left ts_stopped ts_right] obtain m1 m' where
    t1: "test ts_left (left_of i) ?m0 = Inr m1" and t2: "test ts_right (right_nb i) m1 = Inr m'"
    and p: "putdown_forks ts_stopped ts_left ts_right i m = Inr m'"
    by blast
  have inv0: "eating_holds (state ?m0) (forks_in_use ?m0)"
    using eating_holds_free[OF inv i e] by (simp add: log_event_fields)
  have own0: "owners_adjacent (forks_in_use m) \<longrightarrow> owners_adjacent (forks_in_use ?m0)"
    using owners_adjacent_free[of "forks_in_use m" i "left_of i"] eating_holds_len[OF inv] i
      left_of_less[of i]
    by (simp add: log_event_fields)
  from test_keeps[OF inv0 left_of_less, of ts_left i] t1
  have k1: "running m1 = running m" "eating_holds (state m1) (forks_in_use m1)"
    "owners_adjacent (forks_in_use ?m0) \<longrightarrow> owners_adjacent (forks_in_use m1)"
    by (simp_all add: log_event_fields)
  from test_keeps[OF k1(2) right_nb_less, of ts_right i] t2
  have k2: "running m' = running m1" "eating_holds (state m') (forks_in_use m')"
    "owners_adjacent (forks_in_use m1) \<longrightarrow> owners_adjacent (forks_in_use m')"
    by simp_all
  from p k1 k2 own0 show ?thesis by simp
qed

lemma restart_loop_effect:
  assumes "\<forall>i\<in>set is. i < length st"
  shows "\<exists>st'. restart_loop is st = Inr st' \<and> length st' = length st
     \<and> (\<forall>j<length st. st' ! j = (if j \<in> set is \<and> st ! j = DEADLOCK then THINKING else st ! j))"
  using assms
proof (induction "is" arbitrary: st)
  case Nil
  then show ?case by simp
next
  case (Cons i "is")
  let ?st = "if st ! i = DEADLOCK then st[i := THINKING] else st"
  from Cons.prems have i: "i < length st" and rest: "\<forall>k\<in>set is. k < length ?st"
    by simp_all
  from Cons.IH[OF rest] obtain st' where
    r: "restart_loop is ?st = Inr st'" and len: "length st' = length ?st"
    and nth: "\<forall>j<length ?st. st' ! j = (if j \<in> set is \<and> ?st ! j = DEADLOCK then THINKING else ?st ! j)"
    by blast
  have "restart_loop (i # is) st = Inr st'"
    using i r by simp
  moreover have "length st' = length st"
    using len by simp
  moreover have "\<forall>j<length st. st' ! j =
      (if j \<in> set (i # is) \<and> st ! j = DEADLOCK then THINKING else st ! j)"
  proof (intro allI impI)
    fix j assume j: "j < length st"
    then have "st' ! j = (if j \<in> set is \<and> ?st ! j = DEADLOCK then THINKING else ?st ! j)"
      using nth by simp
    then show "st' ! j = (if j \<in> set (i # is) \<and> st ! j = DEADLOCK then THINKING else st ! j)"
      using j i by (cases "j = i") (auto simp: nth_list_update)
  qed
  ultimately show ?case by blast
qed

lemma restart_effect:
  assumes len: "length (state m) = NUM_PHILOSOPHERS"
  shows "\<exists>st'. restart m = Inr (m\<lparr>running := True, state := st'\<rparr>)
     \<and> length st' = NUM_PHILOSOPHERS
     \<and> (\<forall>j<NUM_PHILOSOPHERS. st' ! j = (if state m ! j = DEADLOCK then THINKING else state m ! j))"
proof -
  have "\<forall>i\<in>set [0..<NUM_PHILOSOPHERS]. i < length (state m)"
    using len by simp
  from restart_loop_effect[OF this] len obtain st' where
    "restart_loop [0..<NUM_PHILOSOPHERS] (state m) = Inr st'" "length st' = NUM_PHILOSOPHERS"
    "\<forall>j<NUM_PHILOSOPHERS. st' ! j = (if state m ! j = DEADLOCK then THINKING else state m ! j)"
    by auto
  then show ?thesis by (intro exI[of _ st']) (simp add: restart_def)
qed

lemma fire_Request_keeps:
  assumes inv: "eating_holds (state m) (forks_in_use m)"
    and f: "fire (Request ts_hungry ts_eating i) m = Some m'"
  shows "eating_holds (state m') (forks_in_use m')
     \<and> (owners_adjacent (forks_in_use m) \<longrightarrow> owners_adjacent (forks_in_use m'))"
proof (cases "running m")
  case False
  with f have "m' = m" by (simp add: pickup_forks_def)
  with inv show ?thesis by simp
next
  case True
  note len = eating_holds_len[OF inv]
  from True f len have i: "i < NUM_PHILOSOPHERS"
    by (auto simp: pickup_forks_def split: if_splits)
  let ?mh = "log_event ts_hungry (''P'' @ str i @ '' hungry'') (m\<lparr>state := (state m)[i := HUNGRY]\<rparr>)"
  have invh: "eating_holds (state ?mh) (forks_in_use ?mh)"
    using eating_holds_demote[OF inv, of HUNGRY i] by (simp add: log_event_fields)
  have ownh: "forks_in_use ?mh = forks_in_use m"
    by (simp add: log_event_fields)
  from test_keeps[OF invh i, of ts_eating] obtain m1 where
    t: "test ts_eating i ?mh = Inr m1" and inv1: "eating_holds (state m1) (forks_in_use m1)"
    and own1: "owners_adjacent (forks_in_use ?mh) \<longrightarrow> owners_adjacent (forks_in_use m1)"
    by blast
  from eating_holds_len[OF inv1] i have "\<exists>r. wait_loop i 0 [] m1 = Inr (r, m1)"
    by simp
  with True t len i f have "m' = m1"
    by (auto simp: pickup_forks_def)
  with inv1 own1 ownh show ?thesis by simp
qed

lemma fire_Expire_keeps:
  assumes inv: "eating_holds (state m) (forks_in_use m)"
    and f: "fire (Expire ts i) m = Some m'"
  shows "eating_holds (state m') (forks_in_use m')
     \<and> (owners_adjacent (forks_in_use m) \<longrightarrow> owners_adjacent (forks_in_use m'))"
proof (cases "state m ! i \<noteq> EATING \<and> running m")
  case False
  with f have "m' = m" by (auto split: if_splits)
  then show ?thesis using inv by simp
next
  case True
  with f have "m' = log_event ts (''P'' @ str i @ '' timed out!'') (m\<lparr>state := (state m)[i := DEADLOCK]\<rparr>)"
    by (auto split: if_splits)
  then show ?thesis
    using eating_holds_demote[OF inv, of DEADLOCK i]
    by (simp add: log_event_fields)
qed

lemma fire_Release_keeps:
  assumes inv: "eating_holds (state m) (forks_in_use m)"
    and f: "fire (Release ts_stopped ts_left ts_right i) m = Some m'"
  shows "eating_holds (state m') (forks_in_use m')
     \<and> (owners_adjacent (forks_in_use m) \<longrightarrow> owners_adjacent (forks_in_use m'))"
proof -
  from f eating_holds_len[OF inv] have i: "i < NUM_PHILOSOPHERS" and e: "state m ! i = EATING"
    by (auto split: if_splits)
  from putdown_forks_keeps[OF inv i e, of ts_stopped ts_left ts_right] f i e eating_holds_len[OF inv]
  show ?thesis by auto
qed

lemma fire_Restart_keeps:
  assumes inv: "eating_holds (state m) (forks_in_use m)"
    and f: "fire Restart m = Some m'"
  shows "eating_holds (state m') (forks_in_use m')
     \<and> (owners_adjacent (forks_in_use m) \<longrightarrow> owners_adjacent (forks_in_use m'))"
proof -
  note len = eating_holds_len[OF inv]
  from restart_effect[of m] len obtain st' where
    r: "restart m = Inr (m\<lparr>running := True, state := st'\<rparr>)" and l: "length st' = NUM_PHILOSOPHERS"
    and nth: "\<forall>j<NUM_PHILOSOPHERS. st' ! j = (if state m ! j = DEADLOCK then THINKING else state m ! j)"
    by blast
  from r f have m': "m' = m\<lparr>running := True, state := st'\<rparr>" by simp
  have a: "eating_holds st' (forks_in_use m)"
    using nth l len by (intro eating_holds_mono[OF inv]) (auto split: if_splits)
  from a m' show ?thesis by simp
qed

lemma fire_keeps:
  assumes inv: "eating_holds (state m) (forks_in_use m)" and f: "fire e m = Some m'"
  shows "eating_holds (state m') (forks_in_use m')
     \<and> (owners_adjacent (forks_in_use m) \<longrightarrow> owners_adjacent (forks_in_use m'))"
proof (cases e)
  case (Request a b i)
  with fire_Request_keeps[OF inv, of a b i m'] f show ?thesis by simp
next
  case (Expire a i)
  with fire_Expire_keeps[OF inv, of a i m'] f show ?thesis by simp
next
  case (Release a b c i)
  with fire_Release_keeps[OF inv, of a b c i m'] f show ?thesis by simp
next
  case Shutdown
  with inv f show ?thesis by (auto simp: stop_def)
next
  case Restart
  with fire_Restart_keeps[OF inv, of m'] f show ?thesis by simp
qed

lemma run_keeps:
  assumes "eating_holds (state m) (forks_in_use m)" and "run es m = Some m'"
  shows "eating_holds (state m') (forks_in_use m')
     \<and> (owners_adjacent (forks_in_use m) \<longrightarrow> owners_adjacent (forks_in_use m'))"
  using assms
proof (induction es arbitrary: m)
  case Nil
  then show ?case by simp
next
  case (Cons e es)
  from Cons.prems(2) obtain m1 where f: "fire e m = Some m1" and r: "run es m1 = Some m'"
    by (auto split: option.splits)
  from fire_keeps[OF Cons.prems(1) f] Cons.IH[OF _ r] f
  show ?case by auto
qed

lemma Monitor_init_inv:
  "eating_holds (state Monitor_init) (forks_in_use Monitor_init)"
  "owners_adjacent (forks_in_use Monitor_init)"
  by (simp_all add: eating_holds_def owners_adjacent_def Monitor_init_def)

subsection \<open>Mutual exclusion and ownership\<close>

text \<open>
  C1. In every monitor reached from the initial one by a sequence of lock-protected
  sections (requests, expired waits, releases by an eating actor, shutdown, restart), no
  actor \<open>i\<close> is eating together with its neighbour \<open>(i + 1) mod N\<close>.
\<close>

theorem mutual_exclusion:
  assumes "run es Monitor_init = Some m" and "i < NUM_PHILOSOPHERS"
  shows "\<not> (state m ! i = EATING \<and> state m ! ((i + 1) mod NUM_PHILOSOPHERS) = EATING)"
proof
  assume both: "state m ! i = EATING \<and> state m ! ((i + 1) mod NUM_PHILOSOPHERS) = EATING"
  from run_keeps[OF Monitor_init_inv(1) assms(1)]
  have inv: "eating_holds (state m) (forks_in_use m)" by simp
  from eating_holdsD[OF inv assms(2)] both have a: "forks_in_use m ! i = Some i" by simp
  from both have "state m ! right_nb i = EATING" by (simp add: right_nb_def)
  from eating_holdsD[OF inv right_nb_less this] left_of_right_nb[OF assms(2)]
  have "forks_in_use m ! i = Some (right_nb i)" by simp
  with a right_nb_neq[OF assms(2)] show False by simp
qed

text \<open>The theorem at a run of eight sections.\<close>

theorem mutual_exclusion_witness:
  "run [Request ''09:00:01'' ''09:00:01'' 0, Request ''09:00:02'' ''09:00:02'' 1,
        Request ''09:00:03'' ''09:00:03'' 2, Expire ''09:00:07'' 1,
        Release ''09:00:08'' ''09:00:08'' ''09:00:08'' 0, Shutdown, Restart,
        Request ''09:00:09'' ''09:00:09'' 3] Monitor_init
   = Some
      \<lparr>state = [THINKING, THINKING, EATING, HUNGRY, THINKING],
       forks_in_use = [None, Some 2, Some 2, None, None], condition = 3,
       log_q =
         [''09:00:01: P0 hungry'', ''09:00:01: P0 eating (F4, F0)'',
          ''09:00:02: P1 hungry'', ''09:00:03: P2 hungry'',
          ''09:00:03: P2 eating (F1, F2)'', ''09:00:07: P1 timed out!'',
          ''09:00:08: P0 stopped eating'', ''09:00:09: P3 hungry''],
       running = True\<rparr>
   \<and> (2::nat) < NUM_PHILOSOPHERS
   \<and> \<not> ([THINKING, THINKING, EATING, HUNGRY, THINKING] ! 2 = EATING
        \<and> [THINKING, THINKING, EATING, HUNGRY, THINKING] ! ((2 + 1) mod NUM_PHILOSOPHERS) = EATING)"
proof -
  have r: "run [Request ''09:00:01'' ''09:00:01'' 0, Request ''09:00:02'' ''09:00:02'' 1,
        Request ''09:00:03'' ''09:00:03'' 2, Expire ''09:00:07'' 1,
        Release ''09:00:08'' ''09:00:08'' ''09:00:08'' 0, Shutdown, Restart,
        Request ''09:00:09'' ''09:00:09'' 3] Monitor_init
   = Some
      \<lparr>state = [THINKING, THINKING, EATING, HUNGRY, THINKING],
       forks_in_use = [None, Some 2, Some 2, None, None], condition = 3,
       log_q =
         [''09:00:01: P0 hungry'', ''09:00:01: P0 eating (F4, F0)'',
          ''09:00:02: P1 hungry'', ''09:00:03: P2 hungry'',
          ''09:00:03: P2 eating (F1, F2)'', ''09:00:07: P1 timed out!'',
          ''09:00:08: P0 stopped eating'', ''09:00:09: P3 hungry''],
       running = True\<rparr>"
    by code_simp
  have i: "(2::nat) < NUM_PHILOSOPHERS" by (simp add: NUM_PHILOSOPHERS_def)
  from mutual_exclusion[OF r i] r i show ?thesis by simp
qed




subsection \<open>Requests\<close>

lemma wait_loop_done:
  assumes "i < length (state m)" and "\<not> (state m ! i \<noteq> EATING \<and> running m)"
  shows "wait_loop i start_time sched m = Inr (Some (running m \<and> state m ! i = EATING), m)"
  using assms by (cases sched) auto

text \<open>
  C6. A call of \<open>pickup_forks\<close> on a monitor whose flag is cleared returns \<open>False\<close> and
  leaves the monitor as it is, whatever the schedule.
\<close>

theorem pickup_forks_not_running:
  assumes "\<not> running m"
  shows "pickup_forks ts_hungry ts_eating i start_time sched m = Inr (Some False, m)"
  using assms by (simp add: pickup_forks_def)

text \<open>The theorem on the initial monitor after \<open>stop\<close>.\<close>

theorem pickup_forks_not_running_witness:
  "\<not> running (stop Monitor_init)
   \<and> pickup_forks ''09:00:01'' ''09:00:01'' 3 0 [Tick 6 ''09:00:07'' stop] (stop Monitor_init)
       = Inr (Some False, stop Monitor_init)"
proof -
  have h: "\<not> running (stop Monitor_init)" by (simp add: stop_def)
  from pickup_forks_not_running[OF h] h show ?thesis by simp
qed

text \<open>
  C8. On a monitor whose flag is set, a request of actor \<open>i\<close> made while both of its forks
  are free returns \<open>True\<close> with the actor eating and both forks recorded as used by it. The
  loop is not entered: the result is the one of the empty schedule.
\<close>

theorem pickup_forks_immediate_grant:
  assumes "well_formed m" and "i < NUM_PHILOSOPHERS" and "running m"
    and "forks_in_use m ! ((i + NUM_PHILOSOPHERS - 1) mod NUM_PHILOSOPHERS) = None"
    and "forks_in_use m ! i = None"
  shows "\<exists>m'. pickup_forks ts_hungry ts_eating i start_time sched m = Inr (Some True, m')
     \<and> pickup_forks ts_hungry ts_eating i start_time [] m = Inr (Some True, m')
     \<and> state m' ! i = EATING
     \<and> forks_in_use m' ! ((i + NUM_PHILOSOPHERS - 1) mod NUM_PHILOSOPHERS) = Some i
     \<and> forks_in_use m' ! i = Some i"
proof -
  let ?mh = "log_event ts_hungry (''P'' @ str i @ '' hungry'') (m\<lparr>state := (state m)[i := HUNGRY]\<rparr>)"
  from assms(1) have wfh: "well_formed ?mh"
    by (simp add: well_formed_def log_event_fields)
  from assms have g: "grantable i ?mh"
    by (simp add: grantable_def log_event_fields well_formed_def left_of_def)
  from test_effect[OF wfh assms(2), of ts_eating] g obtain m1 where
    t: "test ts_eating i ?mh = Inr m1" and wf1: "well_formed m1" and r1: "running m1 = running ?mh"
    and st: "state m1 = (state ?mh)[i := EATING]"
    and fk: "forks_in_use m1 = (forks_in_use ?mh)[left_of i := Some i, i := Some i]"
    by auto
  from st wfh assms(2) have e: "state m1 ! i = EATING"
    by (simp add: well_formed_def)
  from wf1 assms(2) have len: "i < length (state m1)"
    by (simp add: well_formed_def)
  from r1 assms(3) have run1: "running m1" by (simp add: log_event_fields)
  from wait_loop_done[OF len] e run1
  have w: "wait_loop i start_time sched' m1 = Inr (Some True, m1)" for sched'
    by simp
  from assms(1,2,3) t w
  have p: "pickup_forks ts_hungry ts_eating i start_time sched' m = Inr (Some True, m1)" for sched'
    by (simp add: pickup_forks_def well_formed_def)
  from fk wfh assms(2) left_of_less[of i] left_of_neq[OF assms(2)]
  have f: "forks_in_use m1 ! left_of i = Some i" "forks_in_use m1 ! i = Some i"
    by (simp_all add: well_formed_def)
  from p e f show ?thesis by (simp add: left_of_def)
qed

text \<open>The theorem on the initial monitor, for actor 2 and a schedule that is never read.\<close>

theorem pickup_forks_immediate_grant_witness:
  "well_formed Monitor_init \<and> (2::nat) < NUM_PHILOSOPHERS \<and> running Monitor_init
   \<and> forks_in_use Monitor_init ! ((2 + NUM_PHILOSOPHERS - 1) mod NUM_PHILOSOPHERS) = None
   \<and> forks_in_use Monitor_init ! 2 = None
   \<and> (\<exists>m'. pickup_forks ''09:00:01'' ''09:00:01'' 2 0 [Tick 6 ''09:00:07'' stop] Monitor_init
               = Inr (Some True, m')
          \<and> pickup_forks ''09:00:01'' ''09:00:01'' 2 0 [] Monitor_init = Inr (Some True, m')
          \<and> state m' ! 2 = EATING
          \<and> forks_in_use m' ! ((2 + NUM_PHILOSOPHERS - 1) mod NUM_PHILOSOPHERS) = Some 2
          \<and> forks_in_use m' ! 2 = Some 2)"
proof -
  have a: "well_formed Monitor_init"
    by (simp add: well_formed_def Monitor_init_def)
  have b: "(2::nat) < NUM_PHILOSOPHERS" by (simp add: NUM_PHILOSOPHERS_def)
  have c: "running Monitor_init" by (simp add: Monitor_init_def)
  have d: "forks_in_use Monitor_init ! ((2 + NUM_PHILOSOPHERS - 1) mod NUM_PHILOSOPHERS) = None"
    by (simp add: Monitor_init_def NUM_PHILOSOPHERS_def)
  have e: "forks_in_use Monitor_init ! 2 = None"
    by (simp add: Monitor_init_def NUM_PHILOSOPHERS_def)
  from pickup_forks_immediate_grant[OF a b c d e] a b c d e show ?thesis by blast
qed

subsection \<open>Restart\<close>

text \<open>
  C9. The restart branch sets the flag and turns every \<open>DEADLOCK\<close> entry into
  \<open>THINKING\<close>; the other entries and the forks stay as they are. After \<open>stop\<close>
  followed by the restart branch, an actor that was deadlocked is thinking.
\<close>

theorem restart_clears_deadlock:
  assumes "length (state m) = NUM_PHILOSOPHERS" and "i < NUM_PHILOSOPHERS"
  shows "(\<exists>m'. restart m = Inr m' \<and> running m'
            \<and> state m' ! i = (if state m ! i = DEADLOCK then THINKING else state m ! i)
            \<and> forks_in_use m' = forks_in_use m)
       \<and> (\<exists>m'. restart (stop m) = Inr m' \<and> running m'
            \<and> (state m ! i = DEADLOCK \<longrightarrow> state m' ! i = THINKING))"
proof -
  from restart_effect[OF assms(1)] assms(2)
  have a: "\<exists>m'. restart m = Inr m' \<and> running m'
            \<and> state m' ! i = (if state m ! i = DEADLOCK then THINKING else state m ! i)
            \<and> forks_in_use m' = forks_in_use m"
    by auto
  from assms(1) have "length (state (stop m)) = NUM_PHILOSOPHERS"
    by (simp add: stop_def)
  from restart_effect[OF this] assms(2)
  have b: "\<exists>m'. restart (stop m) = Inr m' \<and> running m'
            \<and> (state m ! i = DEADLOCK \<longrightarrow> state m' ! i = THINKING)"
    by (auto simp: stop_def)
  from a b show ?thesis by blast
qed

text \<open>The theorem on a monitor in which actor 1 is deadlocked and actor 2 eats.\<close>

theorem restart_clears_deadlock_witness:
  "length (state \<lparr>state = [THINKING, DEADLOCK, EATING, HUNGRY, THINKING],
                  forks_in_use = [None, Some 2, Some 2, None, None], condition = 3,
                  log_q = [], running = True\<rparr>) = NUM_PHILOSOPHERS
   \<and> (1::nat) < NUM_PHILOSOPHERS
   \<and> (\<exists>m'. restart \<lparr>state = [THINKING, DEADLOCK, EATING, HUNGRY, THINKING],
                  forks_in_use = [None, Some 2, Some 2, None, None], condition = 3,
                  log_q = [], running = True\<rparr> = Inr m' \<and> running m'
            \<and> state m' ! 1 = THINKING
            \<and> forks_in_use m' = [None, Some 2, Some 2, None, None])
   \<and> (\<exists>m'. restart (stop \<lparr>state = [THINKING, DEADLOCK, EATING, HUNGRY, THINKING],
                  forks_in_use = [None, Some 2, Some 2, None, None], condition = 3,
                  log_q = [], running = True\<rparr>) = Inr m' \<and> running m'
            \<and> state m' ! 1 = THINKING)"
proof -
  let ?m = "\<lparr>state = [THINKING, DEADLOCK, EATING, HUNGRY, THINKING],
                  forks_in_use = [None, Some 2, Some 2, None, None], condition = 3,
                  log_q = [], running = True\<rparr>"
  have a: "length (state ?m) = NUM_PHILOSOPHERS" by (simp add: NUM_PHILOSOPHERS_def)
  have b: "(1::nat) < NUM_PHILOSOPHERS" by (simp add: NUM_PHILOSOPHERS_def)
  from restart_clears_deadlock[OF a b] a b show ?thesis by simp
qed

subsection \<open>Releases\<close>

lemma rev_deque_append: "rev (deque_append q x) = take 20 (x # rev q)"
proof (cases "19 \<le> length q")
  case True
  then have "length q - (length q - 19) = 19" by simp
  then show ?thesis by (simp add: deque_append_def Let_def rev_drop)
next
  case False
  then show ?thesis by (simp add: deque_append_def Let_def)
qed

lemma recent_new: "recent (Suc k) x (deque_append q x)"
  by (simp add: recent_def rev_deque_append)

lemma recent_older:
  assumes "recent k e q" and "k < 20"
  shows "recent (Suc k) e (deque_append q x)"
proof -
  from assms(2) have "take (Suc k) (take 20 (x # rev q)) = x # take k (rev q)"
    by (simp add: min_def)
  with assms(1) show ?thesis
    by (simp add: recent_def rev_deque_append)
qed

lemma recent_mono: "recent k e q \<Longrightarrow> recent (Suc k) e q"
  unfolding recent_def using set_take_subset_set_take[of k "Suc k" "rev q"] by auto

lemma recent_mem: "recent k e q \<Longrightarrow> e \<in> set q"
  unfolding recent_def using set_take_subset[of k "rev q"] by auto

lemma test_recent:
  assumes "test ts i m = Inr m'" and "recent k e (log_q m)" and "k < 20"
  shows "recent (Suc k) e (log_q m')"
proof (cases "m' = m")
  case True
  with assms(2) show ?thesis by (simp add: recent_mono)
next
  case False
  with assms(1) obtain msg m0 where "m' = log_event ts msg m0" "log_q m0 = log_q m"
    by (auto simp: test_def Let_def split: if_splits)
  with assms(2,3) show ?thesis
    by (simp add: log_event_def recent_older)
qed

lemma putdown_forks_effect:
  assumes wf: "well_formed m" and i: "i < NUM_PHILOSOPHERS"
  shows "\<exists>m'. putdown_forks ts_stopped ts_left ts_right i m = Inr m'
     \<and> well_formed m'
     \<and> running m' = running m
     \<and> state m' ! i = THINKING
     \<and> state m' ! left_of i =
         (if state m ! left_of i = HUNGRY \<and> forks_in_use m ! left_of (left_of i) = None
          then EATING else state m ! left_of i)
     \<and> state m' ! right_nb i =
         (if state m ! right_nb i = HUNGRY \<and> forks_in_use m ! right_nb i = None
          then EATING else state m ! right_nb i)
     \<and> forks_in_use m' ! left_of (left_of i) =
         (if state m ! left_of i = HUNGRY \<and> forks_in_use m ! left_of (left_of i) = None
          then Some (left_of i) else forks_in_use m ! left_of (left_of i))
     \<and> forks_in_use m' ! left_of i =
         (if state m ! left_of i = HUNGRY \<and> forks_in_use m ! left_of (left_of i) = None
          then Some (left_of i) else None)
     \<and> forks_in_use m' ! i =
         (if state m ! right_nb i = HUNGRY \<and> forks_in_use m ! right_nb i = None
          then Some (right_nb i) else None)
     \<and> forks_in_use m' ! right_nb i =
         (if state m ! right_nb i = HUNGRY \<and> forks_in_use m ! right_nb i = None
          then Some (right_nb i) else forks_in_use m ! right_nb i)
     \<and> condition m' = condition m
         + (if state m ! left_of i = HUNGRY \<and> forks_in_use m ! left_of (left_of i) = None
            then 1 else 0)
         + (if state m ! right_nb i = HUNGRY \<and> forks_in_use m ! right_nb i = None
            then 1 else 0)
     \<and> recent 3 (ts_stopped @ '': '' @ ''P'' @ str i @ '' stopped eating'') (log_q m')"
proof -
  let ?L = "left_of i" and ?R = "right_nb i"
  let ?e = "ts_stopped @ '': '' @ ''P'' @ str i @ '' stopped eating''"
  define m0 where "m0 = log_event ts_stopped (''P'' @ str i @ '' stopped eating'')
          (m\<lparr>state := (state m)[i := THINKING],
             forks_in_use := (forks_in_use m)[left_of i := None, i := None]\<rparr>)"
  define gL where "gL \<longleftrightarrow> state m ! ?L = HUNGRY \<and> forks_in_use m ! left_of ?L = None"
  define gR where "gR \<longleftrightarrow> state m ! ?R = HUNGRY \<and> forks_in_use m ! ?R = None"
  note idx = left_of_less[of i] right_nb_less[of i] left_of_less[of "left_of i"]
    left_of_neq[OF i] right_nb_neq[OF i] right_nb_neq_left_of[OF i]
    left_left_neq[OF i] left_left_neq_right[OF i] left_of_neq[OF left_of_less, of i]
    left_of_right_nb[OF i]
  from wf have len: "length (state m) = NUM_PHILOSOPHERS" "length (forks_in_use m) = NUM_PHILOSOPHERS"
    by (simp_all add: well_formed_def)
  from putdown_forks_steps[OF wf i, of ts_left ts_stopped ts_right] obtain m1 m' where
    t1: "test ts_left ?L m0 = Inr m1" and t2: "test ts_right ?R m1 = Inr m'"
    and p: "putdown_forks ts_stopped ts_left ts_right i m = Inr m'"
    unfolding m0_def by blast
  have f0: "state m0 = (state m)[i := THINKING]"
    "forks_in_use m0 = (forks_in_use m)[left_of i := None, i := None]"
    "condition m0 = condition m" "running m0 = running m"
    "log_q m0 = deque_append (log_q m) ?e"
    by (simp_all add: m0_def log_event_def)
  from wf have wf0: "well_formed m0"
    by (simp add: well_formed_def f0)
  have g0: "grantable ?L m0 \<longleftrightarrow> gL"
    using idx len i by (simp add: grantable_def f0 gL_def)
  from test_effect[OF wf0 left_of_less, of ts_left i] t1
  have wf1: "well_formed m1" and r1: "running m1 = running m"
    and st1: "state m1 = (if gL then (state m)[i := THINKING, ?L := EATING]
                          else (state m)[i := THINKING])"
    and fk1: "forks_in_use m1 =
        (if gL then (forks_in_use m)[?L := None, i := None, left_of ?L := Some ?L, ?L := Some ?L]
         else (forks_in_use m)[?L := None, i := None])"
    and c1: "condition m1 = (if gL then Suc (condition m) else condition m)"
    by (simp_all add: f0 g0)
  have g1: "grantable ?R m1 \<longleftrightarrow> gR"
    using idx len i by (simp add: grantable_def st1 fk1 gR_def)
  from test_effect[OF wf1 right_nb_less, of ts_right i] t2
  have wf2: "well_formed m'" and r2: "running m' = running m1"
    and st2: "state m' = (if gR then (state m1)[?R := EATING] else state m1)"
    and fk2: "forks_in_use m' =
        (if gR then (forks_in_use m1)[i := Some ?R, ?R := Some ?R] else forks_in_use m1)"
    and c2: "condition m' = (if gR then Suc (condition m1) else condition m1)"
    using idx by (simp_all add: g1)
  have s_i: "state m' ! i = THINKING"
    using idx len i by (simp add: st2 st1)
  have s_L: "state m' ! ?L = (if gL then EATING else state m ! ?L)"
    using idx len i by (simp add: st2 st1)
  have s_R: "state m' ! ?R = (if gR then EATING else state m ! ?R)"
    using idx len i by (simp add: st2 st1)
  have f_LL: "forks_in_use m' ! left_of ?L = (if gL then Some ?L else forks_in_use m ! left_of ?L)"
    using idx len i by (simp add: fk2 fk1)
  have f_L: "forks_in_use m' ! ?L = (if gL then Some ?L else None)"
    using idx len i by (simp add: fk2 fk1)
  have f_i: "forks_in_use m' ! i = (if gR then Some ?R else None)"
    using idx len i by (simp add: fk2 fk1)
  have f_R: "forks_in_use m' ! ?R = (if gR then Some ?R else forks_in_use m ! ?R)"
    using idx len i by (simp add: fk2 fk1)
  have c: "condition m' = condition m + (if gL then 1 else 0) + (if gR then 1 else 0)"
    by (simp add: c2 c1)
  have "recent (Suc 0) ?e (log_q m0)"
    unfolding f0 by (rule recent_new)
  from test_recent[OF t1 this] have "recent (Suc (Suc 0)) ?e (log_q m1)"
    by simp
  from test_recent[OF t2 this] have l: "recent 3 ?e (log_q m')"
    by (simp add: numeral_3_eq_3)
  from p wf2 r1 r2 s_i s_L s_R f_LL f_L f_i f_R c l show ?thesis
    unfolding gL_def gR_def by (intro exI[of _ m']) simp
qed

text \<open>
  C5 as it is written fails in its last part: \<open>putdown_forks\<close> itself never calls
  \<open>notify_all\<close>. Actor 0 is granted its forks (one broadcast, from \<open>test\<close>) and releases
  them while no neighbour is hungry: the number of broadcasts is still one afterwards.
\<close>

theorem putdown_forks_counterexample:
  "map_option condition (run [Request ''09:00:01'' ''09:00:01'' 0] Monitor_init) = Some 1
   \<and> map_option condition
        (run [Request ''09:00:01'' ''09:00:01'' 0,
              Release ''09:00:03'' ''09:00:03'' ''09:00:03'' 0] Monitor_init) = Some 1"
  by code_simp

text \<open>
  C5, amended. For \<open>i\<close> below \<open>N\<close>, \<open>putdown_forks\<close> sets the entry of actor \<open>i\<close> to
  \<open>THINKING\<close>, frees both of its forks, appends the entry "stopped eating" of actor \<open>i\<close>
  to the log, and runs \<open>test\<close> for the left and for the right neighbour: a neighbour that is
  hungry and whose other fork is free eats afterwards and is recorded as the user of the fork
  it shares with \<open>i\<close>; otherwise that fork is free and the neighbour's entry is unchanged.
  The waiters are notified once for each neighbour that is granted, and not at all when
  none is.
\<close>

theorem putdown_forks_spec:
  assumes "well_formed m" and "i < NUM_PHILOSOPHERS"
  shows "\<exists>m'. putdown_forks ts_stopped ts_left ts_right i m = Inr m'
     \<and> state m' ! i = THINKING
     \<and> (ts_stopped @ '': '' @ ''P'' @ str i @ '' stopped eating'') \<in> set (log_q m')
     \<and> state m' ! left_of i =
         (if state m ! left_of i = HUNGRY \<and> forks_in_use m ! left_of (left_of i) = None
          then EATING else state m ! left_of i)
     \<and> forks_in_use m' ! left_of i =
         (if state m ! left_of i = HUNGRY \<and> forks_in_use m ! left_of (left_of i) = None
          then Some (left_of i) else None)
     \<and> state m' ! right_nb i =
         (if state m ! right_nb i = HUNGRY \<and> forks_in_use m ! right_nb i = None
          then EATING else state m ! right_nb i)
     \<and> forks_in_use m' ! i =
         (if state m ! right_nb i = HUNGRY \<and> forks_in_use m ! right_nb i = None
          then Some (right_nb i) else None)
     \<and> condition m' = condition m
         + (if state m ! left_of i = HUNGRY \<and> forks_in_use m ! left_of (left_of i) = None
            then 1 else 0)
         + (if state m ! right_nb i = HUNGRY \<and> forks_in_use m ! right_nb i = None
            then 1 else 0)"
proof -
  from putdown_forks_effect[OF assms, of ts_stopped ts_left ts_right] obtain m' where
    h: "putdown_forks ts_stopped ts_left ts_right i m = Inr m'"
       "state m' ! i = THINKING"
       "state m' ! left_of i =
         (if state m ! left_of i = HUNGRY \<and> forks_in_use m ! left_of (left_of i) = None
          then EATING else state m ! left_of i)"
       "forks_in_use m' ! left_of i =
         (if state m ! left_of i = HUNGRY \<and> forks_in_use m ! left_of (left_of i) = None
          then Some (left_of i) else None)"
       "state m' ! right_nb i =
         (if state m ! right_nb i = HUNGRY \<and> forks_in_use m ! right_nb i = None
          then EATING else state m ! right_nb i)"
       "forks_in_use m' ! i =
         (if state m ! right_nb i = HUNGRY \<and> forks_in_use m ! right_nb i = None
          then Some (right_nb i) else None)"
       "condition m' = condition m
         + (if state m ! left_of i = HUNGRY \<and> forks_in_use m ! left_of (left_of i) = None
            then 1 else 0)
         + (if state m ! right_nb i = HUNGRY \<and> forks_in_use m ! right_nb i = None
            then 1 else 0)"
    and l: "recent 3 (ts_stopped @ '': '' @ ''P'' @ str i @ '' stopped eating'') (log_q m')"
    by blast
  from recent_mem[OF l] h show ?thesis
    by (intro exI[of _ m']) (simp only: simp_thms)
qed

text \<open>The theorem on a monitor in which actor 0 eats and actor 1 waits for fork 0.\<close>

theorem putdown_forks_spec_witness:
  "well_formed \<lparr>state = [EATING, HUNGRY, THINKING, THINKING, THINKING],
                 forks_in_use = [Some 0, None, None, None, Some 0], condition = 1,
                 log_q = [], running = True\<rparr>
   \<and> (0::nat) < NUM_PHILOSOPHERS
   \<and> (\<exists>m'. putdown_forks ''09:00:03'' ''09:00:03'' ''09:00:03'' 0
               \<lparr>state = [EATING, HUNGRY, THINKING, THINKING, THINKING],
                 forks_in_use = [Some 0, None, None, None, Some 0], condition = 1,
                 log_q = [], running = True\<rparr> = Inr m'
          \<and> state m' ! 0 = THINKING
          \<and> ''09:00:03: P0 stopped eating'' \<in> set (log_q m')
          \<and> state m' ! 4 = THINKING
          \<and> forks_in_use m' ! 4 = None
          \<and> state m' ! 1 = EATING
          \<and> forks_in_use m' ! 0 = Some 1
          \<and> condition m' = 2)"
proof -
  let ?m = "\<lparr>state = [EATING, HUNGRY, THINKING, THINKING, THINKING],
                 forks_in_use = [Some 0, None, None, None, Some 0], condition = 1,
                 log_q = [], running = True\<rparr>"
  have a: "well_formed ?m" by (simp add: well_formed_def NUM_PHILOSOPHERS_def)
  have b: "(0::nat) < NUM_PHILOSOPHERS" by (simp add: NUM_PHILOSOPHERS_def)
  have c: "left_of 0 = 4" "right_nb 0 = 1" "left_of 4 = 3" "str 0 = ''0''"
    by (simp_all add: left_of_def right_nb_def NUM_PHILOSOPHERS_def str.simps)
  from putdown_forks_spec[OF a b, of "''09:00:03''" "''09:00:03''" "''09:00:03''"] a b
  show ?thesis by (simp add: c numeral_2_eq_2)
qed

text \<open>
  C7. When actor \<open>a\<close> eats, a neighbour \<open>b\<close> is hungry and the fork of \<open>b\<close> that it does not
  share with \<open>a\<close> is free, the call of \<open>putdown_forks\<close> for \<open>a\<close> leaves \<open>b\<close> eating and
  recorded as the user of both of its forks.
\<close>

theorem release_grants_neighbour:
  assumes "well_formed m" and "a < NUM_PHILOSOPHERS" and "state m ! a = EATING"
    and "state m ! b = HUNGRY"
    and "b = (a + 1) mod NUM_PHILOSOPHERS \<and> forks_in_use m ! b = None
       \<or> b = (a + NUM_PHILOSOPHERS - 1) mod NUM_PHILOSOPHERS
         \<and> forks_in_use m ! ((b + NUM_PHILOSOPHERS - 1) mod NUM_PHILOSOPHERS) = None"
  shows "\<exists>m'. putdown_forks ts_stopped ts_left ts_right a m = Inr m'
     \<and> state m' ! b = EATING
     \<and> forks_in_use m' ! ((b + NUM_PHILOSOPHERS - 1) mod NUM_PHILOSOPHERS) = Some b
     \<and> forks_in_use m' ! b = Some b"
proof -
  from putdown_forks_effect[OF assms(1,2), of ts_stopped ts_left ts_right] obtain m' where
    p: "putdown_forks ts_stopped ts_left ts_right a m = Inr m'"
    and sL: "state m' ! left_of a =
         (if state m ! left_of a = HUNGRY \<and> forks_in_use m ! left_of (left_of a) = None
          then EATING else state m ! left_of a)"
    and sR: "state m' ! right_nb a =
         (if state m ! right_nb a = HUNGRY \<and> forks_in_use m ! right_nb a = None
          then EATING else state m ! right_nb a)"
    and fLL: "forks_in_use m' ! left_of (left_of a) =
         (if state m ! left_of a = HUNGRY \<and> forks_in_use m ! left_of (left_of a) = None
          then Some (left_of a) else forks_in_use m ! left_of (left_of a))"
    and fL: "forks_in_use m' ! left_of a =
         (if state m ! left_of a = HUNGRY \<and> forks_in_use m ! left_of (left_of a) = None
          then Some (left_of a) else None)"
    and fi: "forks_in_use m' ! a =
         (if state m ! right_nb a = HUNGRY \<and> forks_in_use m ! right_nb a = None
          then Some (right_nb a) else None)"
    and fR: "forks_in_use m' ! right_nb a =
         (if state m ! right_nb a = HUNGRY \<and> forks_in_use m ! right_nb a = None
          then Some (right_nb a) else forks_in_use m ! right_nb a)"
    by blast
  from assms(5) consider
    (right) "b = right_nb a" "forks_in_use m ! right_nb a = None"
    | (left) "b = left_of a" "forks_in_use m ! left_of (left_of a) = None"
    by (auto simp: left_of_def right_nb_def)
  then have "state m' ! b = EATING \<and> forks_in_use m' ! left_of b = Some b
      \<and> forks_in_use m' ! b = Some b"
  proof cases
    case right
    with assms(4) sR fi fR left_of_right_nb[OF assms(2)] show ?thesis by simp
  next
    case left
    with assms(4) sL fLL fL show ?thesis by simp
  qed
  with p show ?thesis by (simp add: left_of_def)
qed

text \<open>The theorem for actor 0 eating and actor 1 waiting for fork 0.\<close>

theorem release_grants_neighbour_witness:
  "well_formed \<lparr>state = [EATING, HUNGRY, THINKING, THINKING, THINKING],
                 forks_in_use = [Some 0, None, None, None, Some 0], condition = 1,
                 log_q = [], running = True\<rparr>
   \<and> (0::nat) < NUM_PHILOSOPHERS
   \<and> [EATING, HUNGRY, THINKING, THINKING, THINKING] ! 0 = EATING
   \<and> [EATING, HUNGRY, THINKING, THINKING, THINKING] ! 1 = HUNGRY
   \<and> (1::nat) = (0 + 1) mod NUM_PHILOSOPHERS
   \<and> [Some 0, None, None, None, Some (0::nat)] ! 1 = None
   \<and> (\<exists>m'. putdown_forks ''09:00:03'' ''09:00:03'' ''09:00:03'' 0
               \<lparr>state = [EATING, HUNGRY, THINKING, THINKING, THINKING],
                 forks_in_use = [Some 0, None, None, None, Some 0], condition = 1,
                 log_q = [], running = True\<rparr> = Inr m'
          \<and> state m' ! 1 = EATING
          \<and> forks_in_use m' ! ((1 + NUM_PHILOSOPHERS - 1) mod NUM_PHILOSOPHERS) = Some 1
          \<and> forks_in_use m' ! 1 = Some 1)"
proof -
  let ?m = "\<lparr>state = [EATING, HUNGRY, THINKING, THINKING, THINKING],
                 forks_in_use = [Some 0, None, None, None, Some 0], condition = 1,
                 log_q = [], running = True\<rparr>"
  have a: "well_formed ?m" by (simp add: well_formed_def NUM_PHILOSOPHERS_def)
  have b: "(0::nat) < NUM_PHILOSOPHERS" by (simp add: NUM_PHILOSOPHERS_def)
  have c: "state ?m ! 0 = EATING" by simp
  have d: "state ?m ! 1 = HUNGRY" by simp
  have e: "1 = (0 + 1) mod NUM_PHILOSOPHERS \<and> forks_in_use ?m ! 1 = None
       \<or> 1 = (0 + NUM_PHILOSOPHERS - 1) mod NUM_PHILOSOPHERS
         \<and> forks_in_use ?m ! ((1 + NUM_PHILOSOPHERS - 1) mod NUM_PHILOSOPHERS) = None"
    by (simp add: NUM_PHILOSOPHERS_def)
  from release_grants_neighbour[OF a b c d e, of "''09:00:03''" "''09:00:03''" "''09:00:03''"]
    a b e
  show ?thesis by (simp add: NUM_PHILOSOPHERS_def)
qed

subsection \<open>Frame of a request\<close>

lemma wait_loop_alone:
  assumes "i < length (state m)"
  shows "\<exists>r m'. wait_loop i start_time (alone wakes) m = Inr (r, m')
     \<and> (state m' = state m \<or> state m' = (state m)[i := DEADLOCK])
     \<and> forks_in_use m' = forks_in_use m"
  using assms
proof (induction wakes)
  case Nil
  then show ?case by (simp add: alone_def)
next
  case (Cons w wakes)
  obtain now ts where w: "w = (now, ts)" by (cases w)
  have a: "alone (w # wakes) = Tick now ts (\<lambda>m. m) # alone wakes"
    by (simp add: alone_def w)
  show ?case
  proof (cases "state m ! i \<noteq> EATING \<and> running m")
    case False
    with Cons.prems show ?thesis unfolding a by auto
  next
    case True
    show ?thesis
    proof (cases "TIMEOUT - (now - start_time) \<le> 0")
      case t: True
      with True Cons.prems show ?thesis unfolding a
        by (simp add: log_event_fields)
    next
      case f: False
      with True Cons.prems have "wait_loop i start_time (alone (w # wakes)) m
          = wait_loop i start_time (alone wakes) m"
        unfolding a by simp
      with Cons.IH[OF Cons.prems] show ?thesis by simp
    qed
  qed
qed

text \<open>
  C10. A call of \<open>pickup_forks\<close> for actor \<open>i\<close> during which no other thread touches the
  monitor leaves the entry of every other actor \<open>j\<close> and the record of every fork \<open>f\<close> other
  than the two forks of \<open>i\<close> as they were.
\<close>

theorem pickup_forks_frame:
  assumes "well_formed m" and "i < NUM_PHILOSOPHERS"
    and "j < NUM_PHILOSOPHERS" and "f < NUM_PHILOSOPHERS"
  shows "\<exists>r m'. pickup_forks ts_hungry ts_eating i start_time (alone wakes) m = Inr (r, m')
     \<and> (j \<noteq> i \<longrightarrow> state m' ! j = state m ! j)
     \<and> (f \<noteq> (i + NUM_PHILOSOPHERS - 1) mod NUM_PHILOSOPHERS \<longrightarrow> f \<noteq> i
          \<longrightarrow> forks_in_use m' ! f = forks_in_use m ! f)"
proof (cases "running m")
  case False
  then show ?thesis by (simp add: pickup_forks_def)
next
  case True
  define mh where "mh = log_event ts_hungry (''P'' @ str i @ '' hungry'')
      (m\<lparr>state := (state m)[i := HUNGRY]\<rparr>)"
  have fh: "state mh = (state m)[i := HUNGRY]" "forks_in_use mh = forks_in_use m"
    by (simp_all add: mh_def log_event_fields)
  from assms(1) have wfh: "well_formed mh" by (simp add: well_formed_def fh)
  from test_effect[OF wfh assms(2), of ts_eating] obtain m1 where
    t: "test ts_eating i mh = Inr m1" and wf1: "well_formed m1"
    and st1: "state m1 = (if grantable i mh then (state mh)[i := EATING] else state mh)"
    and fk1: "forks_in_use m1 =
        (if grantable i mh then (forks_in_use mh)[left_of i := Some i, i := Some i]
         else forks_in_use mh)"
    by blast
  from wf1 assms(2) have "i < length (state m1)" by (simp add: well_formed_def)
  from wait_loop_alone[OF this, of start_time wakes] obtain r m' where
    w: "wait_loop i start_time (alone wakes) m1 = Inr (r, m')"
    and st': "state m' = state m1 \<or> state m' = (state m1)[i := DEADLOCK]"
    and fk': "forks_in_use m' = forks_in_use m1"
    by blast
  from True assms(1,2) t w
  have p: "pickup_forks ts_hungry ts_eating i start_time (alone wakes) m = Inr (r, m')"
    unfolding mh_def by (simp add: pickup_forks_def well_formed_def)
  have s: "state m' ! j = state m ! j" if "j \<noteq> i"
    using st' st1 fh that by auto
  have k: "forks_in_use m' ! f = forks_in_use m ! f" if "f \<noteq> left_of i" "f \<noteq> i"
    using fk' fk1 fh that by auto
  from p s k show ?thesis by (auto simp: left_of_def)
qed

text \<open>
  The theorem for a request of actor 1 that times out while actor 0 eats: actor 2 and
  fork 2 are not touched.
\<close>

theorem pickup_forks_frame_witness:
  "well_formed \<lparr>state = [EATING, THINKING, HUNGRY, THINKING, THINKING],
                 forks_in_use = [Some 0, None, None, None, Some 0], condition = 1,
                 log_q = [], running = True\<rparr>
   \<and> (1::nat) < NUM_PHILOSOPHERS \<and> (2::nat) < NUM_PHILOSOPHERS
   \<and> (\<exists>r m'. pickup_forks ''09:00:02'' ''09:00:02'' 1 0 (alone [(3, ''09:00:05''), (6, ''09:00:08'')])
                 \<lparr>state = [EATING, THINKING, HUNGRY, THINKING, THINKING],
                   forks_in_use = [Some 0, None, None, None, Some 0], condition = 1,
                   log_q = [], running = True\<rparr> = Inr (r, m')
          \<and> state m' ! 2 = HUNGRY \<and> forks_in_use m' ! 2 = None)"
proof -
  let ?m = "\<lparr>state = [EATING, THINKING, HUNGRY, THINKING, THINKING],
                 forks_in_use = [Some 0, None, None, None, Some 0], condition = 1,
                 log_q = [], running = True\<rparr>"
  have a: "well_formed ?m" by (simp add: well_formed_def NUM_PHILOSOPHERS_def)
  have b: "(1::nat) < NUM_PHILOSOPHERS" and c: "(2::nat) < NUM_PHILOSOPHERS"
    by (simp_all add: NUM_PHILOSOPHERS_def)
  from pickup_forks_frame[OF a b c c, of "''09:00:02''" "''09:00:02''" 0
      "[(3, ''09:00:05''), (6, ''09:00:08'')]"] a b c
  show ?thesis by (simp add: NUM_PHILOSOPHERS_def)
qed

subsection \<open>The deadline of a request\<close>

lemma wait_loop_still_waiting:
  assumes "still_waiting i start_time pre m"
  shows "wait_loop i start_time (pre @ sched) m = wait_loop i start_time sched (after_waits pre m)"
  using assms by (induction pre arbitrary: m) simp_all

lemma last_deque_append: "last (deque_append q x) = x"
  by (simp add: deque_append_def Let_def)

text \<open>
  C4 as it is written fails when the flag is cleared during the wait. Actor 1 requests
  while actor 0 eats and waits; \<open>stop\<close> runs during the wait; the caller would read the
  clock at 6, one unit after its deadline, and is not eating, but the loop is left through
  its flag test: the call returns \<open>False\<close>, the entry of actor 1 stays \<open>HUNGRY\<close> and the log
  gets no "timed out" entry.
\<close>

theorem pickup_forks_timeout_counterexample:
  "map_sum id fst
     (pickup_forks ''09:00:02'' ''09:00:02'' 1 0 [Tick 2 ''09:00:04'' stop, Tick 6 ''09:00:08'' id]
        \<lparr>state = [EATING, THINKING, THINKING, THINKING, THINKING],
          forks_in_use = [Some 0, None, None, None, Some 0], condition = 1,
          log_q = [], running = True\<rparr>) = Inr (Some False)
   \<and> map_sum id (state \<circ> snd)
     (pickup_forks ''09:00:02'' ''09:00:02'' 1 0 [Tick 2 ''09:00:04'' stop, Tick 6 ''09:00:08'' id]
        \<lparr>state = [EATING, THINKING, THINKING, THINKING, THINKING],
          forks_in_use = [Some 0, None, None, None, Some 0], condition = 1,
          log_q = [], running = True\<rparr>) = Inr [EATING, HUNGRY, THINKING, THINKING, THINKING]
   \<and> map_sum id (log_q \<circ> snd)
     (pickup_forks ''09:00:02'' ''09:00:02'' 1 0 [Tick 2 ''09:00:04'' stop, Tick 6 ''09:00:08'' id]
        \<lparr>state = [EATING, THINKING, THINKING, THINKING, THINKING],
          forks_in_use = [Some 0, None, None, None, Some 0], condition = 1,
          log_q = [], running = True\<rparr>) = Inr [''09:00:02: P1 hungry'']
   \<and> TIMEOUT \<le> tick_now (Tick 6 ''09:00:08'' id) - 0"
  by code_simp

text \<open>
  C4, amended. Let a call of \<open>pickup_forks\<close> for actor \<open>i\<close> have gone through its entry
  section and through any number of waits (\<open>pre\<close>), whatever the other threads did in
  between. If at the next pass the actor is still not eating, the flag is still set, and the
  clock reading is \<open>TIMEOUT\<close> or more after the start of the request, then the call sets
  the entry of actor \<open>i\<close> to \<open>DEADLOCK\<close>, appends the entry "timed out" of actor \<open>i\<close> to the
  log and returns \<open>False\<close>. The deadline is counted from the one start time of the call.
\<close>

theorem pickup_forks_timeout:
  assumes "running m" and "i < length (state m)"
    and "test ts_eating i
           (log_event ts_hungry (''P'' @ str i @ '' hungry'')
              (m\<lparr>state := (state m)[i := HUNGRY]\<rparr>)) = Inr m1"
    and "still_waiting i start_time pre m1"
    and "m2 = after_waits pre m1"
    and "i < length (state m2)" and "state m2 ! i \<noteq> EATING" and "running m2"
    and "TIMEOUT \<le> tick_now t - start_time"
  shows "\<exists>m'. pickup_forks ts_hungry ts_eating i start_time (pre @ t # rest) m
                 = Inr (Some False, m')
     \<and> state m' = (state m2)[i := DEADLOCK]
     \<and> state m' ! i = DEADLOCK
     \<and> last (log_q m') = tick_stamp t @ '': '' @ ''P'' @ str i @ '' timed out!''
     \<and> forks_in_use m' = forks_in_use m2
     \<and> running m'"
proof -
  let ?m' = "log_event (tick_stamp t) (''P'' @ str i @ '' timed out!'')
               (m2\<lparr>state := (state m2)[i := DEADLOCK]\<rparr>)"
  from assms(1,2,3) have "pickup_forks ts_hungry ts_eating i start_time (pre @ t # rest) m
      = wait_loop i start_time (pre @ t # rest) m1"
    by (simp add: pickup_forks_def)
  also from wait_loop_still_waiting[OF assms(4)] assms(5)
  have "\<dots> = wait_loop i start_time (t # rest) m2" by simp
  also from assms(6,7,8,9) have "\<dots> = Inr (Some False, ?m')" by simp
  finally have p: "pickup_forks ts_hungry ts_eating i start_time (pre @ t # rest) m
      = Inr (Some False, ?m')" .
  have l: "last (log_q ?m') = tick_stamp t @ '': '' @ ''P'' @ str i @ '' timed out!''"
    by (simp add: log_event_def last_deque_append)
  from assms(6,8) have "state ?m' ! i = DEADLOCK" "running ?m'"
    "state ?m' = (state m2)[i := DEADLOCK]" "forks_in_use ?m' = forks_in_use m2"
    by (simp_all add: log_event_fields)
  with p l show ?thesis by blast
qed

text \<open>
  The theorem for actor 1 requesting at time 0 while actor 0 eats: it wakes up at 2 with
  nothing changed, and again at 6.
\<close>

theorem pickup_forks_timeout_witness:
  "running \<lparr>state = [EATING, THINKING, THINKING, THINKING, THINKING],
             forks_in_use = [Some 0, None, None, None, Some 0], condition = 1,
             log_q = [], running = True\<rparr>
   \<and> still_waiting 1 0 [Tick 2 ''09:00:04'' id]
        \<lparr>state = [EATING, HUNGRY, THINKING, THINKING, THINKING],
          forks_in_use = [Some 0, None, None, None, Some 0], condition = 1,
          log_q = [''09:00:02: P1 hungry''], running = True\<rparr>
   \<and> TIMEOUT \<le> tick_now (Tick 6 ''09:00:08'' id) - 0
   \<and> (\<exists>m'. pickup_forks ''09:00:02'' ''09:00:02'' 1 0
               ([Tick 2 ''09:00:04'' id] @ Tick 6 ''09:00:08'' id # [])
               \<lparr>state = [EATING, THINKING, THINKING, THINKING, THINKING],
                 forks_in_use = [Some 0, None, None, None, Some 0], condition = 1,
                 log_q = [], running = True\<rparr> = Inr (Some False, m')
          \<and> state m' = [EATING, DEADLOCK, THINKING, THINKING, THINKING]
          \<and> last (log_q m') = ''09:00:08: P1 timed out!''
          \<and> forks_in_use m' = [Some 0, None, None, None, Some 0]
          \<and> running m')"
proof -
  let ?m = "\<lparr>state = [EATING, THINKING, THINKING, THINKING, THINKING],
             forks_in_use = [Some 0, None, None, None, Some 0], condition = 1,
             log_q = [], running = True\<rparr>"
  let ?m1 = "\<lparr>state = [EATING, HUNGRY, THINKING, THINKING, THINKING],
          forks_in_use = [Some 0, None, None, None, Some 0], condition = 1,
          log_q = [''09:00:02: P1 hungry''], running = True\<rparr>"
  have a: "running ?m" by simp
  have b: "1 < length (state ?m)" by simp
  have c: "test ''09:00:02'' 1
           (log_event ''09:00:02'' (''P'' @ str 1 @ '' hungry'')
              (?m\<lparr>state := (state ?m)[1 := HUNGRY]\<rparr>)) = Inr ?m1"
    by code_simp
  have d: "still_waiting 1 0 [Tick 2 ''09:00:04'' id] ?m1"
    by (simp add: TIMEOUT_def)
  have e: "?m1 = after_waits [Tick 2 ''09:00:04'' id] ?m1" by simp
  have f: "1 < length (state ?m1)" "state ?m1 ! 1 \<noteq> EATING" "running ?m1" by simp_all
  have g: "TIMEOUT \<le> tick_now (Tick 6 ''09:00:08'' id) - 0" by (simp add: TIMEOUT_def)
  have s: "str (Suc 0) = ''1''" by (simp add: str.simps)
  from pickup_forks_timeout[OF a b c d e f g, of "[]"] a d g
  show ?thesis by (auto simp: s)
qed

subsection \<open>The loop of an actor\<close>

lemma returned_Inr: "returned b (Inr (bs, l, m)) = Inr (b # bs, l, m)"
  by (simp add: returned_def)

lemma pickup_forks_blocked:
  assumes "well_formed m" and "i < NUM_PHILOSOPHERS" and "running m"
    and "\<not> (forks_in_use m ! left_of i = None \<and> forks_in_use m ! i = None)"
  shows "pickup_forks ts_hungry ts_eating i start_time [] m =
           Inr (None, log_event ts_hungry (''P'' @ str i @ '' hungry'')
                        (m\<lparr>state := (state m)[i := HUNGRY]\<rparr>))"
proof -
  define mh where "mh = log_event ts_hungry (''P'' @ str i @ '' hungry'')
      (m\<lparr>state := (state m)[i := HUNGRY]\<rparr>)"
  have fh: "state mh = (state m)[i := HUNGRY]" "forks_in_use mh = forks_in_use m"
    "running mh = running m"
    by (simp_all add: mh_def log_event_fields)
  from assms(1) have wfh: "well_formed mh" by (simp add: well_formed_def fh)
  from assms(4) have ng: "\<not> grantable i mh" by (auto simp: grantable_def fh)
  from test_effect[OF wfh assms(2), of ts_eating] ng obtain m1 where
    t: "test ts_eating i mh = Inr m1" and st1: "state m1 = state mh"
    and r1: "running m1 = running mh"
    by auto
  from t ng wfh assms(2) have "m1 = mh"
    by (auto simp: test_def Let_def grantable_def well_formed_def left_of_def split: if_splits)
  with t have t': "test ts_eating i mh = Inr mh" by simp
  from assms(1,2,3) have "wait_loop i start_time [] mh = Inr (None, mh)"
    by (simp add: fh well_formed_def)
  with assms(1,2,3) t' have "pickup_forks ts_hungry ts_eating i start_time [] m = Inr (None, mh)"
    unfolding mh_def by (simp add: pickup_forks_def well_formed_def)
  then show ?thesis by (simp only: mh_def)
qed

lemma pickup_forks_granted:
  assumes "well_formed m" and "i < NUM_PHILOSOPHERS" and "running m"
    and "forks_in_use m ! left_of i = None \<and> forks_in_use m ! i = None"
  shows "\<exists>m'. (\<forall>sched. pickup_forks ts_hungry ts_eating i start_time sched m = Inr (Some True, m'))
     \<and> state m' = (state m)[i := EATING]"
proof -
  define mh where "mh = log_event ts_hungry (''P'' @ str i @ '' hungry'')
      (m\<lparr>state := (state m)[i := HUNGRY]\<rparr>)"
  have fh: "state mh = (state m)[i := HUNGRY]" "forks_in_use mh = forks_in_use m"
    "running mh = running m"
    by (simp_all add: mh_def log_event_fields)
  from assms(1) have wfh: "well_formed mh" by (simp add: well_formed_def fh)
  from assms(1,2,4) have g: "grantable i mh"
    by (simp add: grantable_def fh well_formed_def)
  from test_effect[OF wfh assms(2), of ts_eating] g obtain m1 where
    t: "test ts_eating i mh = Inr m1" and wf1: "well_formed m1"
    and r1: "running m1 = running mh" and st1: "state m1 = (state mh)[i := EATING]"
    by auto
  from st1 have st: "state m1 = (state m)[i := EATING]" by (simp add: fh)
  from wf1 assms(2) have len: "i < length (state m1)" by (simp add: well_formed_def)
  from st assms(1,2) have e: "state m1 ! i = EATING" by (simp add: well_formed_def)
  from r1 assms(3) have run1: "running m1" by (simp add: fh)
  from wait_loop_done[OF len] e run1
  have w: "wait_loop i start_time sched m1 = Inr (Some True, m1)" for sched
    by simp
  from assms(1,2,3) t w
  have "pickup_forks ts_hungry ts_eating i start_time sched m = Inr (Some True, m1)" for sched
    unfolding mh_def by (simp add: pickup_forks_def well_formed_def)
  with st show ?thesis by blast
qed

lemma philosopher_stopped:
  assumes "\<not> running m"
  shows "philosopher id' rs m = Inr ([], True, m)"
  using assms by (cases rs) simp_all

text \<open>
  C3 as it is written fails. Actor 1 requests while actor 0 eats, its wait times out and
  \<open>pickup_forks\<close> returns \<open>False\<close> with the flag still set. The loop is not left: the
  thread logs "thinking" again, sleeps, and calls \<open>pickup_forks\<close> again, which sets the
  deadlocked entry to \<open>HUNGRY\<close> and, actor 0 having released in the meantime, returns
  \<open>True\<close>. No restart takes place.
\<close>

theorem philosopher_counterexample:
  "map_sum id fst (philosopher 1 [round_timed_out, round_granted] actor0_eats)
     = Inr [False, True]
   \<and> map_sum id (fst \<circ> snd) (philosopher 1 [round_timed_out, round_granted] actor0_eats)
     = Inr False
   \<and> map_sum id (log_q \<circ> snd \<circ> snd)
        (philosopher 1 [round_timed_out, round_granted] actor0_eats)
     = Inr [''09:00:01: P0 hungry'', ''09:00:01: P0 eating (F4, F0)'',
            ''09:00:02: P1 thinking'', ''09:00:04: P1 hungry'',
            ''09:00:09: P1 timed out!'', ''09:00:09: P1 thinking'',
            ''09:00:10: P0 stopped eating'', ''09:00:11: P1 hungry'',
            ''09:00:11: P1 eating (F0, F1)'', ''09:00:13: P1 stopped eating'']"
  by code_simp

text \<open>
  C3, amended. When the call of \<open>pickup_forks\<close> made in a pass of the loop returns
  \<open>False\<close>, the thread goes back to the test of the flag. If the flag is cleared, the loop
  is left, whatever passes would follow. If the flag is still set (the call timed out), the
  next pass \<open>r'\<close> begins: the thread logs "thinking" and sleeps; if the flag is cleared by
  then, the loop is left; otherwise the thread calls \<open>pickup_forks\<close> again, which sets the
  entry of the actor to \<open>HUNGRY\<close> whatever it was, \<open>DEADLOCK\<close> included, without any restart.
  The actor then waits (seen right after the entry section of the call) when one of its
  forks is in use, and eats at once when both are free.
\<close>

theorem philosopher_after_false:
  assumes "running m"
    and "m1 = rd_think_sleep r (log_event (rd_thinking r) (''P'' @ str id' @ '' thinking'') m)"
    and "running m1"
    and "pickup_forks (rd_hungry r) (rd_eating r) id' (rd_start r) (rd_sched r) m1
           = Inr (Some False, m2)"
    and "m3 = rd_think_sleep r' (log_event (rd_thinking r') (''P'' @ str id' @ '' thinking'') m2)"
    and "well_formed m3" and "id' < NUM_PHILOSOPHERS"
  shows "(\<not> running m2 \<longrightarrow> philosopher id' (r # rs) m = Inr ([False], True, m2))
       \<and> (running m2 \<and> \<not> running m3 \<longrightarrow>
            philosopher id' (r # r' # rs) m = Inr ([False], True, m3))
       \<and> (running m2 \<and> running m3 \<and> rd_sched r' = []
            \<and> \<not> (forks_in_use m3 ! ((id' + NUM_PHILOSOPHERS - 1) mod NUM_PHILOSOPHERS) = None
                 \<and> forks_in_use m3 ! id' = None) \<longrightarrow>
            (\<exists>m4. philosopher id' (r # r' # rs) m = Inr ([False], False, m4)
               \<and> state m4 = (state m3)[id' := HUNGRY]
               \<and> forks_in_use m4 = forks_in_use m3
               \<and> last (log_q m4) = rd_hungry r' @ '': '' @ ''P'' @ str id' @ '' hungry''))
       \<and> (running m2 \<and> running m3
            \<and> forks_in_use m3 ! ((id' + NUM_PHILOSOPHERS - 1) mod NUM_PHILOSOPHERS) = None
            \<and> forks_in_use m3 ! id' = None \<longrightarrow>
            (\<exists>m4. pickup_forks (rd_hungry r') (rd_eating r') id' (rd_start r') (rd_sched r') m3
                     = Inr (Some True, m4)
               \<and> state m4 = (state m3)[id' := EATING]
               \<and> philosopher id' (r # r' # rs) m =
                   returned False
                     (case putdown_forks (rd_stopped r') (rd_left r') (rd_right r') id'
                             (rd_eat_sleep r' m4) of
                        Inl e \<Rightarrow> Inl e
                      | Inr m5 \<Rightarrow> returned True (philosopher id' rs m5))))"
proof -
  from assms(1,2,3,4)
  have step: "philosopher id' (r # rs') m = returned False (philosopher id' rs' m2)" for rs'
    by (simp add: Let_def)
  have A: "philosopher id' (r # rs) m = Inr ([False], True, m2)" if "\<not> running m2"
    using philosopher_stopped[OF that, of id' rs] unfolding step by (simp only: returned_Inr)
  have E: "philosopher id' (r # r' # rs) m = Inr ([False], True, m3)"
    if "running m2" "\<not> running m3"
  proof -
    from that assms(5) have "philosopher id' (r' # rs) m2 = Inr ([], True, m3)"
      by (simp add: Let_def)
    then show ?thesis unfolding step by (simp only: returned_Inr)
  qed
  have C: "\<exists>m4. philosopher id' (r # r' # rs) m = Inr ([False], False, m4)
               \<and> state m4 = (state m3)[id' := HUNGRY]
               \<and> forks_in_use m4 = forks_in_use m3
               \<and> last (log_q m4) = rd_hungry r' @ '': '' @ ''P'' @ str id' @ '' hungry''"
    if "running m2" "running m3" "rd_sched r' = []"
      "\<not> (forks_in_use m3 ! left_of id' = None \<and> forks_in_use m3 ! id' = None)"
  proof -
    define m4 where "m4 = log_event (rd_hungry r') (''P'' @ str id' @ '' hungry'')
                        (m3\<lparr>state := (state m3)[id' := HUNGRY]\<rparr>)"
    from pickup_forks_blocked[OF assms(6,7) that(2,4), of "rd_hungry r'" "rd_eating r'" "rd_start r'"]
      that(3)
    have p: "pickup_forks (rd_hungry r') (rd_eating r') id' (rd_start r') (rd_sched r') m3
        = Inr (None, m4)"
      by (simp only: m4_def)
    from that(1,2) assms(5) p have "philosopher id' (r' # rs) m2 = Inr ([], False, m4)"
      by (simp add: Let_def)
    then have "philosopher id' (r # r' # rs) m = Inr ([False], False, m4)"
      unfolding step by (simp only: returned_Inr)
    moreover have "state m4 = (state m3)[id' := HUNGRY]" "forks_in_use m4 = forks_in_use m3"
      by (simp_all add: m4_def log_event_fields)
    moreover have "last (log_q m4) = rd_hungry r' @ '': '' @ ''P'' @ str id' @ '' hungry''"
      by (simp add: m4_def log_event_def last_deque_append)
    ultimately show ?thesis by blast
  qed
  have D: "\<exists>m4. pickup_forks (rd_hungry r') (rd_eating r') id' (rd_start r') (rd_sched r') m3
                     = Inr (Some True, m4)
               \<and> state m4 = (state m3)[id' := EATING]
               \<and> philosopher id' (r # r' # rs) m =
                   returned False
                     (case putdown_forks (rd_stopped r') (rd_left r') (rd_right r') id'
                             (rd_eat_sleep r' m4) of
                        Inl e \<Rightarrow> Inl e
                      | Inr m5 \<Rightarrow> returned True (philosopher id' rs m5))"
    if "running m2" "running m3"
      "forks_in_use m3 ! left_of id' = None \<and> forks_in_use m3 ! id' = None"
  proof -
    from pickup_forks_granted[OF assms(6,7) that(2,3), of "rd_hungry r'" "rd_eating r'" "rd_start r'"]
    obtain m4 where
      p: "pickup_forks (rd_hungry r') (rd_eating r') id' (rd_start r') (rd_sched r') m3
            = Inr (Some True, m4)"
      and st: "state m4 = (state m3)[id' := EATING]"
      by blast
    from that(1,2) assms(5) p
    have "philosopher id' (r' # rs) m2 =
        (case putdown_forks (rd_stopped r') (rd_left r') (rd_right r') id' (rd_eat_sleep r' m4) of
           Inl e \<Rightarrow> Inl e
         | Inr m5 \<Rightarrow> returned True (philosopher id' rs m5))"
      by (simp add: Let_def)
    then have "philosopher id' (r # r' # rs) m =
        returned False
          (case putdown_forks (rd_stopped r') (rd_left r') (rd_right r') id' (rd_eat_sleep r' m4) of
             Inl e \<Rightarrow> Inl e
           | Inr m5 \<Rightarrow> returned True (philosopher id' rs m5))"
      unfolding step by (simp only:)
    with p st show ?thesis by blast
  qed
  from A E C D show ?thesis
    unfolding left_of_def by blast
qed

text \<open>
  The theorem for two threads of actor 1 while actor 0 eats. The request of the first times
  out and leaves the actor deadlocked; its next pass sets the entry to \<open>HUNGRY\<close> again. The
  request of the second is cut short by \<open>stop\<close>, and its loop is left.
\<close>

theorem philosopher_after_false_witness:
  "running actor0_eats
   \<and> pickup_forks (rd_hungry round_timed_out) (rd_eating round_timed_out) 1
        (rd_start round_timed_out) (rd_sched round_timed_out)
        (rd_think_sleep round_timed_out
           (log_event (rd_thinking round_timed_out) (''P'' @ str 1 @ '' thinking'') actor0_eats))
      = Inr (Some False,
          \<lparr>state = [EATING, DEADLOCK, THINKING, THINKING, THINKING],
           forks_in_use = [Some 0, None, None, None, Some 0], condition = 1,
           log_q =
             [''09:00:01: P0 hungry'', ''09:00:01: P0 eating (F4, F0)'',
              ''09:00:02: P1 thinking'', ''09:00:04: P1 hungry'',
              ''09:00:09: P1 timed out!''],
           running = True\<rparr>)
   \<and> (\<exists>m4. philosopher 1 [round_timed_out, round_waiting] actor0_eats = Inr ([False], False, m4)
          \<and> state m4 = [EATING, HUNGRY, THINKING, THINKING, THINKING]
          \<and> forks_in_use m4 = [Some 0, None, None, None, Some 0]
          \<and> last (log_q m4) = ''09:00:11: P1 hungry'')
   \<and> pickup_forks (rd_hungry round_shutdown) (rd_eating round_shutdown) 1
        (rd_start round_shutdown) (rd_sched round_shutdown)
        (rd_think_sleep round_shutdown
           (log_event (rd_thinking round_shutdown) (''P'' @ str 1 @ '' thinking'') actor0_eats))
      = Inr (Some False,
          \<lparr>state = [EATING, HUNGRY, THINKING, THINKING, THINKING],
           forks_in_use = [Some 0, None, None, None, Some 0], condition = 2,
           log_q =
             [''09:00:01: P0 hungry'', ''09:00:01: P0 eating (F4, F0)'',
              ''09:00:02: P1 thinking'', ''09:00:04: P1 hungry''],
           running = False\<rparr>)
   \<and> philosopher 1 [round_shutdown, round_waiting] actor0_eats
      = Inr ([False], True,
          \<lparr>state = [EATING, HUNGRY, THINKING, THINKING, THINKING],
           forks_in_use = [Some 0, None, None, None, Some 0], condition = 2,
           log_q =
             [''09:00:01: P0 hungry'', ''09:00:01: P0 eating (F4, F0)'',
              ''09:00:02: P1 thinking'', ''09:00:04: P1 hungry''],
           running = False\<rparr>)"
proof -
  let ?t1 = "rd_think_sleep round_timed_out
        (log_event (rd_thinking round_timed_out) (''P'' @ str 1 @ '' thinking'') actor0_eats)"
  let ?t2 = "\<lparr>state = [EATING, DEADLOCK, THINKING, THINKING, THINKING],
           forks_in_use = [Some 0, None, None, None, Some 0], condition = 1,
           log_q =
             [''09:00:01: P0 hungry'', ''09:00:01: P0 eating (F4, F0)'',
              ''09:00:02: P1 thinking'', ''09:00:04: P1 hungry'',
              ''09:00:09: P1 timed out!''],
           running = True\<rparr>"
  let ?t3 = "rd_think_sleep round_waiting
        (log_event (rd_thinking round_waiting) (''P'' @ str 1 @ '' thinking'') ?t2)"
  let ?s1 = "rd_think_sleep round_shutdown
        (log_event (rd_thinking round_shutdown) (''P'' @ str 1 @ '' thinking'') actor0_eats)"
  let ?s2 = "\<lparr>state = [EATING, HUNGRY, THINKING, THINKING, THINKING],
           forks_in_use = [Some 0, None, None, None, Some 0], condition = 2,
           log_q =
             [''09:00:01: P0 hungry'', ''09:00:01: P0 eating (F4, F0)'',
              ''09:00:02: P1 thinking'', ''09:00:04: P1 hungry''],
           running = False\<rparr>"
  let ?s3 = "rd_think_sleep round_waiting
        (log_event (rd_thinking round_waiting) (''P'' @ str 1 @ '' thinking'') ?s2)"
  have a: "running actor0_eats" by (simp add: actor0_eats_def)
  have i: "(1::nat) < NUM_PHILOSOPHERS" by (simp add: NUM_PHILOSOPHERS_def)
  have b1: "running ?t1" by (simp add: round_timed_out_def log_event_fields a)
  have c1: "pickup_forks (rd_hungry round_timed_out) (rd_eating round_timed_out) 1
        (rd_start round_timed_out) (rd_sched round_timed_out) ?t1 = Inr (Some False, ?t2)"
    by code_simp
  have w1: "well_formed ?t3"
    by (simp add: round_waiting_def log_event_fields well_formed_def NUM_PHILOSOPHERS_def)
  have f1: "state ?t3 = [EATING, DEADLOCK, THINKING, THINKING, THINKING]"
    "forks_in_use ?t3 = [Some 0, None, None, None, Some 0]" "running ?t3" "running ?t2"
    "rd_sched round_waiting = []" "rd_hungry round_waiting = ''09:00:11''"
    by (simp_all add: round_waiting_def log_event_fields)
  have b2: "running ?s1" by (simp add: round_shutdown_def log_event_fields a)
  have c2: "pickup_forks (rd_hungry round_shutdown) (rd_eating round_shutdown) 1
        (rd_start round_shutdown) (rd_sched round_shutdown) ?s1 = Inr (Some False, ?s2)"
    by code_simp
  have w2: "well_formed ?s3"
    by (simp add: round_waiting_def log_event_fields well_formed_def NUM_PHILOSOPHERS_def)
  have s: "str (Suc 0) = ''1''" by (simp add: str.simps)
  from philosopher_after_false[OF a refl b1 c1 refl w1 i, of "[]"] f1
  have r1: "\<exists>m4. philosopher 1 [round_timed_out, round_waiting] actor0_eats = Inr ([False], False, m4)
          \<and> state m4 = [EATING, HUNGRY, THINKING, THINKING, THINKING]
          \<and> forks_in_use m4 = [Some 0, None, None, None, Some 0]
          \<and> last (log_q m4) = ''09:00:11: P1 hungry''"
    by (simp add: NUM_PHILOSOPHERS_def s)
  from philosopher_after_false[OF a refl b2 c2 refl w2 i, of "[round_waiting]"]
  have r2: "philosopher 1 [round_shutdown, round_waiting] actor0_eats = Inr ([False], True, ?s2)"
    by simp
  from a c1 r1 c2 r2 show ?thesis by blast
qed

subsection \<open>A whole request is a sequence of lock-protected sections\<close>

lemma run_append:
  "run (es @ es') m = (case run es m of None \<Rightarrow> None | Some m1 \<Rightarrow> run es' m1)"
  by (induction es arbitrary: m) (auto split: option.splits)

lemma interleaved_run: "\<exists>es'. run es' m = Some (interleaved es m)"
proof (cases "run es m")
  case None
  then have "run [] m = Some (interleaved es m)" by (simp add: interleaved_def)
  then show ?thesis by blast
next
  case (Some m')
  then have "run es m = Some (interleaved es m)" by (simp add: interleaved_def)
  then show ?thesis by blast
qed

lemma wait_loop_in_range:
  assumes "wait_loop i start_time sched m = Inr (r, m')"
  shows "i < length (state m)"
  using assms by (cases sched) (auto split: if_splits)

lemma fire_Expire_timeout:
  assumes "i < length (state m)" and "state m ! i \<noteq> EATING" and "running m"
  shows "fire (Expire ts i) m =
    Some (log_event ts (''P'' @ str i @ '' timed out!'') (m\<lparr>state := (state m)[i := DEADLOCK]\<rparr>))"
  using assms by simp

lemma wait_loop_run:
  assumes "\<forall>t\<in>set sched. \<exists>es. tick_others t = interleaved es"
    and "wait_loop i start_time sched m = Inr (r, m')"
  shows "\<exists>es. run es m = Some m'"
  using assms
proof (induction sched arbitrary: m)
  case Nil
  then have "m' = m" by (auto split: if_splits)
  then have "run [] m = Some m'" by simp
  then show ?case by blast
next
  case (Cons t sched)
  note len = wait_loop_in_range[OF Cons.prems(2)]
  show ?case
  proof (cases "state m ! i \<noteq> EATING \<and> running m")
    case False
    with Cons.prems(2) len have "m' = m" by auto
    then have "run [] m = Some m'" by simp
    then show ?thesis by blast
  next
    case True
    show ?thesis
    proof (cases "TIMEOUT - (tick_now t - start_time) \<le> 0")
      case expired: True
      with True Cons.prems(2) len
      have "m' = log_event (tick_stamp t) (''P'' @ str i @ '' timed out!'')
                   (m\<lparr>state := (state m)[i := DEADLOCK]\<rparr>)"
        by simp
      with fire_Expire_timeout[OF len, of "tick_stamp t"] True
      have "run [Expire (tick_stamp t) i] m = Some m'" by simp
      then show ?thesis by blast
    next
      case False
      with True Cons.prems(2) len
      have w: "wait_loop i start_time sched (tick_others t m) = Inr (r, m')" by simp
      from Cons.prems(1) obtain es0 where o: "tick_others t = interleaved es0" by auto
      from Cons.prems(1) have "\<forall>t\<in>set sched. \<exists>es. tick_others t = interleaved es" by simp
      from Cons.IH[OF this w] obtain es1 where r1: "run es1 (tick_others t m) = Some m'"
        by blast
      from interleaved_run[of m es0] o obtain es' where "run es' m = Some (tick_others t m)"
        by auto
      with r1 have "run (es' @ es1) m = Some m'" by (simp add: run_append)
      then show ?thesis by blast
    qed
  qed
qed

lemma pickup_forks_run:
  assumes "\<forall>t\<in>set sched. \<exists>es. tick_others t = interleaved es"
    and "pickup_forks ts_hungry ts_eating i start_time sched m = Inr (r, m')"
  shows "\<exists>es. run es m = Some m'"
proof (cases "running m")
  case False
  with assms(2) have "m' = m" by (simp add: pickup_forks_def)
  then have "run [] m = Some m'" by simp
  then show ?thesis by blast
next
  case True
  with assms(2) obtain m1 where i: "i < length (state m)"
    and t: "test ts_eating i
              (log_event ts_hungry (''P'' @ str i @ '' hungry'')
                 (m\<lparr>state := (state m)[i := HUNGRY]\<rparr>)) = Inr m1"
    and w: "wait_loop i start_time sched m1 = Inr (r, m')"
    by (auto simp: pickup_forks_def split: if_splits sum.splits)
  from wait_loop_in_range[OF w] have len1: "i < length (state m1)" .
  then have "\<exists>r0. wait_loop i 0 [] m1 = Inr (r0, m1)" by simp
  then obtain r0 where "wait_loop i 0 [] m1 = Inr (r0, m1)" by blast
  with True i t have "pickup_forks ts_hungry ts_eating i 0 [] m = Inr (r0, m1)"
    by (simp add: pickup_forks_def)
  then have f: "fire (Request ts_hungry ts_eating i) m = Some m1"
    by simp
  from wait_loop_run[OF assms(1) w] obtain es where "run es m1 = Some m'" by blast
  with f have "run (Request ts_hungry ts_eating i # es) m = Some m'" by simp
  then show ?thesis by blast
qed

end
